theory Spec2Isabelle
  imports Complex_Main
begin

section \<open>APICache (the cache class of the lazy-loading script, lines 86-110)\<close>

text \<open>
  \<^verbatim>\<open>
  class APICache {
      constructor(maxAge = 300000) { this.cache = new Map(); this.maxAge = maxAge; }
      get(key) {
          const item = this.cache.get(key);
          if (!item) return null;
          if (Date.now() - item.timestamp > this.maxAge) {
              this.cache.delete(key);
              return null;
          }
          return item.data;
      }
      set(key, data) {
          this.cache.set(key, { data: data, timestamp: Date.now() });
      }
  }
  \<close>
  The JavaScript \<open>Map\<close> is a partial function from keys to items. \<open>Date.now()\<close> reads the
  wall clock: the value it returns during a call is an argument \<open>now\<close> of the model (an
  integer number of milliseconds); nothing is assumed about successive readings, which
  may go backwards. \<open>maxAge\<close> is taken to be an integer number of milliseconds. The
  result \<open>null\<close> of \<open>get\<close> is \<open>None\<close>; a stored item is an object, hence never falsy, so
  \<open>!item\<close> holds exactly when the key is absent from the map.
\<close>

record 'd cache_item =
  data :: 'd
  timestamp :: int

record ('k, 'd) APICache =
  cache :: "'k \<rightharpoonup> 'd cache_item"
  maxAge :: int

definition new_APICache :: "int \<Rightarrow> ('k, 'd) APICache" where
  "new_APICache m = \<lparr>cache = Map.empty, maxAge = m\<rparr>"

definition default_APICache :: "('k, 'd) APICache" where
  "default_APICache = new_APICache 300000"

definition APICache_get :: "'k \<Rightarrow> int \<Rightarrow> ('k, 'd) APICache \<Rightarrow> 'd option \<times> ('k, 'd) APICache" where
  "APICache_get key now c =
     (case cache c key of
        None \<Rightarrow> (None, c)
      | Some item \<Rightarrow>
          if now - timestamp item > maxAge c
          then (None, c\<lparr>cache := (cache c)(key := None)\<rparr>)
          else (Some (data item), c))"

definition APICache_set :: "'k \<Rightarrow> 'd \<Rightarrow> int \<Rightarrow> ('k, 'd) APICache \<Rightarrow> ('k, 'd) APICache" where
  "APICache_set key d now c =
     c\<lparr>cache := (cache c)(key \<mapsto> \<lparr>data = d, timestamp = now\<rparr>)\<rparr>"

text \<open>
  A history of calls on one cache object. Each event carries the clock reading of its
  call. \<open>run_calls\<close> threads the cache through the calls in order, dropping the results
  of the \<open>get\<close>s.
\<close>

datatype ('k, 'd) cache_call = Set 'k 'd | Get 'k

type_synonym ('k, 'd) cache_event = "int \<times> ('k, 'd) cache_call"

fun cache_step :: "('k, 'd) APICache \<Rightarrow> ('k, 'd) cache_event \<Rightarrow> ('k, 'd) APICache" where
  "cache_step c (now, Set k d) = APICache_set k d now c"
| "cache_step c (now, Get k) = snd (APICache_get k now c)"

definition run_calls :: "('k, 'd) APICache \<Rightarrow> ('k, 'd) cache_event list \<Rightarrow> ('k, 'd) APICache" where
  "run_calls c evs = foldl cache_step c evs"

text \<open>\<open>sets_key k e\<close>: the event is a \<open>set\<close> on key \<open>k\<close>.\<close>

fun sets_key :: "'k \<Rightarrow> ('k, 'd) cache_event \<Rightarrow> bool" where
  "sets_key k (now, Set k' d) = (k' = k)"
| "sets_key k (now, Get k') = False"

text \<open>
  \<open>expired_get k t m e\<close>: the event is a \<open>get\<close> on key \<open>k\<close> made when an entry stamped
  \<open>t\<close> was older than \<open>m\<close> milliseconds.
\<close>

fun expired_get :: "'k \<Rightarrow> int \<Rightarrow> int \<Rightarrow> ('k, 'd) cache_event \<Rightarrow> bool" where
  "expired_get k t m (now, Get k') = (k' = k \<and> now - t > m)"
| "expired_get k t m (now, Set k' d) = False"


section \<open>LazyLoader (the lazy-loading script, lines 2-78)\<close>

text \<open>
  \<^verbatim>\<open>
  init() {
      if ('IntersectionObserver' in window) {
          this.observer = new IntersectionObserver((entries) => {
              entries.forEach(entry => {
                  if (entry.isIntersecting) {
                      this.loadComponent(entry.target);
                      this.observer.unobserve(entry.target);
                  }
              });
          }, { threshold: 0.1 });
          this.observeElements();
      } else {
          this.loadAllComponents();
      }
  }
  observeElements() {
      const lazyElements = document.querySelectorAll('[data-lazy]');
      lazyElements.forEach(el => this.observer.observe(el));
  }
  loadAllComponents() {
      const lazyElements = document.querySelectorAll('[data-lazy]');
      lazyElements.forEach(el => this.loadComponent(el));
  }
  \<close>
  The state of a loader is the set of targets its observer currently observes
  (\<open>observe\<close> adds a target, \<open>unobserve\<close> removes it) and the log of the calls of
  \<open>loadComponent\<close>, in order. The browser is the environment: \<open>hasIO\<close> says whether
  \<open>IntersectionObserver\<close> exists, \<open>elems\<close> is the node list \<open>querySelectorAll\<close> returns, and
  each invocation of the observer's callback receives a list of entries. What
  \<open>loadComponent\<close> then writes into the element (the dispatch on \<open>dataset.lazy\<close>) does
  not bear on how often it is called and is left out of the state.
\<close>

record 'e entry =
  target :: 'e
  isIntersecting :: bool

record 'e LazyLoader =
  observed :: "'e set"
  loaded :: "'e list"

definition observe :: "'e \<Rightarrow> 'e LazyLoader \<Rightarrow> 'e LazyLoader" where
  "observe el s = s\<lparr>observed := insert el (observed s)\<rparr>"

definition unobserve :: "'e \<Rightarrow> 'e LazyLoader \<Rightarrow> 'e LazyLoader" where
  "unobserve el s = s\<lparr>observed := observed s - {el}\<rparr>"

definition loadComponent :: "'e \<Rightarrow> 'e LazyLoader \<Rightarrow> 'e LazyLoader" where
  "loadComponent el s = s\<lparr>loaded := loaded s @ [el]\<rparr>"

text \<open>The observer's callback: \<open>entries.forEach\<close>, in order.\<close>

fun callback :: "'e entry list \<Rightarrow> 'e LazyLoader \<Rightarrow> 'e LazyLoader" where
  "callback [] s = s"
| "callback (en # ens) s =
     callback ens
       (if isIntersecting en then unobserve (target en) (loadComponent (target en) s) else s)"

fun observeElements :: "'e list \<Rightarrow> 'e LazyLoader \<Rightarrow> 'e LazyLoader" where
  "observeElements [] s = s"
| "observeElements (el # els) s = observeElements els (observe el s)"

fun loadAllComponents :: "'e list \<Rightarrow> 'e LazyLoader \<Rightarrow> 'e LazyLoader" where
  "loadAllComponents [] s = s"
| "loadAllComponents (el # els) s = loadAllComponents els (loadComponent el s)"

definition init :: "bool \<Rightarrow> 'e list \<Rightarrow> 'e LazyLoader" where
  "init hasIO elems =
     (if hasIO then observeElements elems \<lparr>observed = {}, loaded = []\<rparr>
      else loadAllComponents elems \<lparr>observed = {}, loaded = []\<rparr>)"

text \<open>
  The browser invokes the callback once per notification, each time with the entries
  queued since the last one. \<open>notify\<close> runs a sequence of such invocations.
\<close>

fun notify :: "'e entry list list \<Rightarrow> 'e LazyLoader \<Rightarrow> 'e LazyLoader" where
  "notify [] s = s"
| "notify (b # bs) s = notify bs (callback b s)"

text \<open>
  What the browser guarantees of a notification: it reports observed targets only
  (entries are queued for observation targets, and the whole queue is handed over
  before the callback, the only caller of \<open>unobserve\<close>, runs). It does not guarantee
  that a target occurs once: an entry is queued at every change of a target's
  threshold index or intersection state, and several may wait for one notification.
  \<open>once_each\<close> is the further condition that no target is reported as intersecting
  twice within one notification.
\<close>

definition reports_observed :: "'e entry list \<Rightarrow> 'e LazyLoader \<Rightarrow> bool" where
  "reports_observed b s = list_all (\<lambda>en. target en \<in> observed s) b"

definition once_each :: "'e entry list \<Rightarrow> bool" where
  "once_each b = distinct (map target (filter isIntersecting b))"

fun admissible :: "'e entry list list \<Rightarrow> 'e LazyLoader \<Rightarrow> bool" where
  "admissible [] s = True"
| "admissible (b # bs) s = (reports_observed b s \<and> admissible bs (callback b s))"

fun all_once_each :: "'e entry list list \<Rightarrow> bool" where
  "all_once_each [] = True"
| "all_once_each (b # bs) = (once_each b \<and> all_once_each bs)"

text \<open>
  The targets reported as intersecting in a sequence of notifications, and the
  invariant of the loader: what has been loaded is no longer observed, and was
  loaded once.
\<close>

definition intersecting_targets :: "'e entry list list \<Rightarrow> 'e set" where
  "intersecting_targets bs = set (map target (filter isIntersecting (concat bs)))"

definition loaded_once :: "'e LazyLoader \<Rightarrow> bool" where
  "loaded_once s = (distinct (loaded s) \<and> set (loaded s) \<inter> observed s = {})"

section \<open>PerformanceMonitor.reportMetrics (performance monitoring script, lines 67-81)\<close>

text \<open>
  \<^verbatim>\<open>
  reportMetrics() {
      if (Math.random() < 0.1) { // 10% des utilisateurs
          fetch('/api/v1/performance-metrics', {
              method: 'POST',
              headers: { 'Content-Type': 'application/json' },
              body: JSON.stringify({
                  metrics: this.metrics,
                  timestamp: Date.now(),
                  url: window.location.href
              })
          }).catch(error => {
              console.warn('Erreur envoi metriques:', error);
          });
      }
  }
  \<close>
  The metrics object holds what the three measurements of the class store in it:
  \<open>pageLoad\<close>, \<open>largestContentfulPaint\<close> and \<open>interactions\<close>, each absent until it is
  first written. The environment is given as arguments: \<open>draw\<close> is the value
  \<open>Math.random()\<close> returns, \<open>now\<close> the value of \<open>Date.now()\<close>, \<open>href\<close> the page's address
  and \<open>rejected\<close> the error with which the promise of \<open>fetch\<close> rejects, if it does. The
  effects are the list of requests issued and the list of console warnings.

  \<open>Math.random()\<close> returns a double and \<open>0.1\<close> denotes the double nearest to one tenth,
  which lies just above it; the largest double below that one lies below one tenth.
  Hence for every double \<open>draw\<close> the comparison \<open>draw < 0.1\<close> of the source has the truth
  value of \<open>draw < 1 / 10\<close> over the reals, which is how it is written here.
\<close>

record page_load =
  domContentLoaded :: real
  loadComplete :: real
  totalTime :: real

record interaction =
  i_type :: string
  responseTime :: real
  element :: string
  i_timestamp :: int

record metrics_object =
  pageLoad :: "page_load option"
  largestContentfulPaint :: "real option"
  interactions :: "interaction list option"

record PerformanceMonitor =
  metrics :: metrics_object

record report_body =
  body_metrics :: metrics_object
  body_timestamp :: int
  body_url :: string

record request =
  req_url :: string
  req_method :: string
  req_headers :: "(string \<times> string) list"
  req_body :: report_body

record report_effects =
  requests :: "request list"
  warnings :: "string list"

definition reportMetrics ::
  "real \<Rightarrow> int \<Rightarrow> string \<Rightarrow> string option \<Rightarrow> PerformanceMonitor
     \<Rightarrow> report_effects \<times> PerformanceMonitor" where
  "reportMetrics draw now href rejected pm =
     (if draw < 1 / 10
      then (\<lparr>requests =
               [\<lparr>req_url = ''/api/v1/performance-metrics'',
                 req_method = ''POST'',
                 req_headers = [(''Content-Type'', ''application/json'')],
                 req_body = \<lparr>body_metrics = metrics pm,
                             body_timestamp = now,
                             body_url = href\<rparr>\<rparr>],
             warnings = (case rejected of None \<Rightarrow> [] | Some err \<Rightarrow> [err])\<rparr>, pm)
      else (\<lparr>requests = [], warnings = []\<rparr>, pm))"

text \<open>\<open>recordInteraction\<close> and the getter, the other methods that touch the metrics.\<close>

definition recordInteraction ::
  "string \<Rightarrow> real \<Rightarrow> string \<Rightarrow> int \<Rightarrow> PerformanceMonitor \<Rightarrow> PerformanceMonitor" where
  "recordInteraction ty rt tag now pm =
     pm\<lparr>metrics := (metrics pm)\<lparr>interactions :=
        Some ((case interactions (metrics pm) of None \<Rightarrow> [] | Some xs \<Rightarrow> xs)
              @ [\<lparr>i_type = ty, responseTime = rt, element = tag, i_timestamp = now\<rparr>])\<rparr>\<rparr>"

definition getMetrics :: "PerformanceMonitor \<Rightarrow> metrics_object" where
  "getMetrics pm = metrics pm"


section \<open>The pipeline core: Validator and PipelineOrchestrator\<close>

text \<open>
  The repository's README names \<open>data_validator.py\<close> and \<open>data_pipeline.py\<close> as the
  validator and the orchestrator of the pipeline. Neither file is part of the sources
  this development is built on, so every definition of this section follows the text
  of the specification (its sections 3, 4.5, 4.8, 7 and 9) and says which words it
  follows. The stages that depend on external collaborators (the source, the
  dictionaries, the scoring function) enter as parameters.
\<close>

subsection \<open>Records and rules\<close>

text \<open>
  Modelled from the spec: the Record of section 3, which the missing pipeline code
  declares. Of its attributes the validator needs the identifier, the observation
  date against which effective-date ranges are read (a day number, dates being
  normalised by the Cleaner) and the named fields the rules inspect.
\<close>

datatype field_value = Num real | Txt string

record inspection =
  record_identifier :: nat
  observation_date :: int
  attributes :: "(string \<times> field_value) list"

definition field :: "inspection \<Rightarrow> string \<Rightarrow> field_value option" where
  "field r f = map_of (attributes r) f"

text \<open>
  Modelled from the spec: the ValidationRule of sections 3 and 9, declared by the
  missing \<open>data_validator.py\<close>: "a named predicate over a Record [...] tagged with a
  severity (error | warning) and a human-readable description", the predicate being
  one of the "tagged variants {RequiredField, Range, Enumeration, DateFormat}, each
  carrying its own parameters and an optional effective-date range".
\<close>

datatype severity = Error | Warning

datatype rule_kind =
    RequiredField string
  | Range string real real
  | Enumeration string "string list"
  | DateFormat string

record ValidationRule =
  rule_name :: string
  severity :: severity
  description :: string
  kind :: rule_kind
  effective :: "(int \<times> int) option"

text \<open>
  Modelled from the spec: the "date-format conformance" of section 4.5; the README
  gives the format as \<open>YYYY-MM-DD\<close>.
\<close>

definition is_digit :: "char \<Rightarrow> bool" where
  "is_digit c = (c \<in> set ''0123456789'')"

definition iso_date :: "string \<Rightarrow> bool" where
  "iso_date s =
     (length s = 10 \<and> s ! 4 = CHR ''-'' \<and> s ! 7 = CHR ''-''
      \<and> list_all is_digit (take 4 s @ take 2 (drop 5 s) @ drop 8 s))"

text \<open>
  Modelled from the spec: the "single dispatcher" of section 9 that evaluates a rule
  variant on a record, for the four categories of section 4.5 (required-field
  presence, numeric range, enumeration membership, date-format conformance). The
  spec does not say how a range, enumeration or date rule treats a field that is
  absent or of the wrong type; here absence is left to \<open>RequiredField\<close> and a value of
  the wrong type violates the rule.
\<close>

fun violated :: "rule_kind \<Rightarrow> inspection \<Rightarrow> bool" where
  "violated (RequiredField f) r = (field r f = None)"
| "violated (Range f lo hi) r =
     (case field r f of None \<Rightarrow> False | Some (Num x) \<Rightarrow> x < lo \<or> hi < x | Some (Txt s) \<Rightarrow> True)"
| "violated (Enumeration f vs) r =
     (case field r f of None \<Rightarrow> False | Some (Txt s) \<Rightarrow> s \<notin> set vs | Some (Num x) \<Rightarrow> True)"
| "violated (DateFormat f) r =
     (case field r f of None \<Rightarrow> False | Some (Txt s) \<Rightarrow> \<not> iso_date s | Some (Num x) \<Rightarrow> True)"

text \<open>
  Modelled from the spec: section 4.5, "a rule may carry an effective-date range and
  only applies to records whose observation date falls inside it". A rule fires on a
  record when it applies to it and the record violates it.
\<close>

definition applies :: "ValidationRule \<Rightarrow> inspection \<Rightarrow> bool" where
  "applies ru r =
     (case effective ru of
        None \<Rightarrow> True
      | Some (from_day, to_day) \<Rightarrow> from_day \<le> observation_date r \<and> observation_date r \<le> to_day)"

definition fires :: "ValidationRule \<Rightarrow> inspection \<Rightarrow> bool" where
  "fires ru r = (applies ru r \<and> violated (kind ru) r)"

subsection \<open>Validator\<close>

text \<open>
  Modelled from the spec: the Validator of section 4.5, implemented by the missing
  \<open>data_validator.py\<close>. "Evaluates every rule against every record [...]. A record
  accumulates zero or more rule violations; any error-severity violation marks the
  record invalid and excludes it from persistence; warning-severity violations are
  recorded but do not exclude." Batch-level rules, which the spec mentions without
  giving a variant for them, are not modelled.
\<close>

definition violations :: "ValidationRule list \<Rightarrow> inspection \<Rightarrow> ValidationRule list" where
  "violations rs r = filter (\<lambda>ru. fires ru r) rs"

definition record_valid :: "ValidationRule list \<Rightarrow> inspection \<Rightarrow> bool" where
  "record_valid rs r = list_all (\<lambda>ru. severity ru \<noteq> Error) (violations rs r)"

definition valid_records :: "inspection list \<Rightarrow> ValidationRule list \<Rightarrow> inspection list" where
  "valid_records b rs = filter (record_valid rs) b"

text \<open>
  Modelled from the spec: the ValidationReport of section 3, "counts of records
  passed/failed, grouped violations by rule, and a validation rate (passed / total)".
  The rate is undefined for an empty batch.
\<close>

record ValidationReport =
  passed :: nat
  failed :: nat
  violations_by_rule :: "(string \<times> nat) list"

definition validate :: "inspection list \<Rightarrow> ValidationRule list \<Rightarrow> ValidationReport" where
  "validate b rs =
     \<lparr>passed = length (filter (record_valid rs) b),
      failed = length (filter (\<lambda>r. \<not> record_valid rs r) b),
      violations_by_rule = map (\<lambda>ru. (rule_name ru, length (filter (fires ru) b))) rs\<rparr>"

definition validation_rate :: "ValidationReport \<Rightarrow> real option" where
  "validation_rate rep =
     (if passed rep + failed rep = 0 then None
      else Some (real (passed rep) / real (passed rep + failed rep)))"

subsection \<open>Orchestrator\<close>

text \<open>
  Modelled from the spec: the stages and terminal states of the state machine of
  section 4.8 and the error taxonomy of section 7, declared by the missing
  \<open>data_pipeline.py\<close>. A \<open>PersistFailure\<close> carries whether it is transient.
\<close>

datatype stage = Ingesting | Cleaning | Enriching | Modeling | Validating | Persisting

datatype run_status = Succeeded | PartiallySucceeded | Failed

datatype failure =
    SourceUnavailable
  | SchemaMismatch
  | MalformedInput
  | ScoringFailure
  | ValidationError
  | BackupUnavailable
  | PersistFailure bool
  | Timeout
  | Cancelled

text \<open>
  Modelled from the spec: section 7, "stage-local, retryable failures
  (SourceUnavailable, Timeout, transient PersistFailure) are retried up to the
  configured bound"; every other failure is not retryable.
\<close>

fun retryable :: "failure \<Rightarrow> bool" where
  "retryable SourceUnavailable = True"
| "retryable Timeout = True"
| "retryable (PersistFailure transient) = transient"
| "retryable f = False"

text \<open>
  Modelled from the spec: the PipelineConfig of section 3 (source location,
  destination store location, backup enabled flag, max retry count, batch size, rule
  set).
\<close>

record PipelineConfig =
  source :: string
  destination :: string
  backup_enabled :: bool
  max_retries :: nat
  batch_size :: nat
  rules :: "ValidationRule list"

text \<open>
  Modelled from the spec: the working state the Orchestrator owns during a run
  (section 3, "Orchestrator exclusively owns the Batch"): the batch, the records
  excluded so far with the reason and the rules that excluded them, and the
  validation report once it exists.
\<close>

record work =
  w_batch :: "inspection list"
  w_exclusions :: "(nat \<times> failure \<times> string list) list"
  w_validation :: "ValidationReport option"

definition empty_work :: work where
  "empty_work = \<lparr>w_batch = [], w_exclusions = [], w_validation = None\<rparr>"

text \<open>
  Modelled from the spec: what a run meets from outside. \<open>faults s n\<close> is the failure,
  if any, that attempt number \<open>n\<close> (from 0) of stage \<open>s\<close> runs into (section 4.8: I/O
  timeouts, unavailable services); \<open>backup_available\<close> says whether the backup medium
  is reachable (section 4.6); \<open>transform s\<close> is what the Ingestor, Cleaner, Enricher or
  RiskModeler (sections 4.1 to 4.4) makes of the working state when no fault
  interferes, a failure of its own (such as SchemaMismatch) included.
\<close>

record environment =
  faults :: "stage \<Rightarrow> nat \<Rightarrow> failure option"
  backup_available :: bool
  transform :: "stage \<Rightarrow> work \<Rightarrow> failure + work"

text \<open>
  Modelled from the spec: the Validating stage of section 4.8 applied to the working
  state. The valid records stay in the batch, the others are listed as excluded with
  the names of the error rules that fired, and the report is kept.
\<close>

definition excluded_by_validation ::
  "inspection list \<Rightarrow> ValidationRule list \<Rightarrow> (nat \<times> failure \<times> string list) list" where
  "excluded_by_validation b rs =
     map (\<lambda>r. (record_identifier r, ValidationError,
                map rule_name (filter (\<lambda>ru. severity ru = Error) (violations rs r))))
         (filter (\<lambda>r. \<not> record_valid rs r) b)"

definition validating :: "PipelineConfig \<Rightarrow> work \<Rightarrow> work" where
  "validating cfg w =
     \<lparr>w_batch = valid_records (w_batch w) (rules cfg),
      w_exclusions = w_exclusions w @ excluded_by_validation (w_batch w) (rules cfg),
      w_validation = Some (validate (w_batch w) (rules cfg))\<rparr>"

text \<open>
  Modelled from the spec: one attempt of a stage. A fault of the environment fails
  the attempt; otherwise the stage does its work. The write of the Persisting stage
  is not part of the working state.
\<close>

definition stage_action ::
  "PipelineConfig \<Rightarrow> environment \<Rightarrow> stage \<Rightarrow> work \<Rightarrow> nat \<Rightarrow> failure + work" where
  "stage_action cfg env s w n =
     (case faults env s n of
        Some f \<Rightarrow> Inl f
      | None \<Rightarrow>
          if s = Validating then Inr (validating cfg w)
          else if s = Persisting then Inr w
          else transform env s w)"

text \<open>
  Modelled from the spec: the entry of the PipelineRunReport for one attempt
  (section 4.8, "each attempt is logged in the PipelineRunReport").
\<close>

record attempt =
  att_stage :: stage
  att_number :: nat
  att_failure :: "failure option"

definition logged :: "stage \<Rightarrow> (nat \<Rightarrow> failure + 'a) \<Rightarrow> nat \<Rightarrow> attempt" where
  "logged s act n =
     \<lparr>att_stage = s, att_number = n,
      att_failure = (case act n of Inl f \<Rightarrow> Some f | Inr v \<Rightarrow> None)\<rparr>"

text \<open>
  Modelled from the spec: the retry policy of section 4.8, "retried up to maxRetries
  times on a transient failure classified as retryable". Attempt \<open>n\<close> is made and
  logged; after a retryable failure the stage is attempted again while fewer than
  \<open>maxRetries\<close> retries have been made (Scenario D of section 8 fixes the count: with
  \<open>maxRetries = 3\<close>, four timeouts fail the run and three retries are recorded). The
  loop is written without a termination argument: \<open>None\<close> would be a loop that never
  ends.
\<close>

partial_function (option) retry_loop ::
  "nat \<Rightarrow> stage \<Rightarrow> (nat \<Rightarrow> failure + 'a) \<Rightarrow> nat \<Rightarrow> attempt list
     \<Rightarrow> ((failure + 'a) \<times> attempt list) option" where
  "retry_loop maxRetries s act n alog =
     (case act n of
        Inr v \<Rightarrow> Some (Inr v, alog @ [logged s act n])
      | Inl f \<Rightarrow>
          if retryable f \<and> n < maxRetries
          then retry_loop maxRetries s act (Suc n) (alog @ [logged s act n])
          else Some (Inl f, alog @ [logged s act n]))"

declare retry_loop.simps [code]

text \<open>
  Modelled from the spec: section 4.8, the stages in sequence; "a non-retryable
  failure [...] transitions the run to Failed and skips remaining stages", and so
  does a retryable one once the retries are used up.
\<close>

fun run_stages ::
  "PipelineConfig \<Rightarrow> environment \<Rightarrow> stage list \<Rightarrow> work \<Rightarrow> attempt list
     \<Rightarrow> (((stage \<times> failure) + work) \<times> attempt list) option" where
  "run_stages cfg env [] w alog = Some (Inr w, alog)"
| "run_stages cfg env (s # ss) w alog =
     (case retry_loop (max_retries cfg) s (stage_action cfg env s w) 0 alog of
        None \<Rightarrow> None
      | Some (Inl f, alog') \<Rightarrow> Some (Inl (s, f), alog')
      | Some (Inr w', alog') \<Rightarrow> run_stages cfg env ss w' alog')"

definition processing_stages :: "stage list" where
  "processing_stages = [Ingesting, Cleaning, Enriching, Modeling, Validating]"

text \<open>
  Modelled from the spec: the PipelineRunReport of section 3, without its timestamps
  and durations: the final status, the stage and failure that ended a failed run, the
  attempts of every stage in order (from which the per-stage retry count is read),
  the embedded ValidationReport and the exclusions.
\<close>

record PipelineRunReport =
  status :: run_status
  failed_at :: "(stage \<times> failure) option"
  attempts :: "attempt list"
  validation_report :: "ValidationReport option"
  excluded :: "(nat \<times> failure \<times> string list) list"

definition attempts_of :: "PipelineRunReport \<Rightarrow> stage \<Rightarrow> attempt list" where
  "attempts_of rep s = filter (\<lambda>a. att_stage a = s) (attempts rep)"

definition retries_of :: "PipelineRunReport \<Rightarrow> stage \<Rightarrow> nat" where
  "retries_of rep s = length (attempts_of rep s) - 1"

definition failed_run ::
  "stage \<Rightarrow> failure \<Rightarrow> attempt list \<Rightarrow> work \<Rightarrow> PipelineRunReport" where
  "failed_run s f alog w =
     \<lparr>status = Failed, failed_at = Some (s, f), attempts = alog,
      validation_report = w_validation w, excluded = w_exclusions w\<rparr>"

text \<open>
  Modelled from the spec: \<open>runOnce(config)\<close> of section 6, the state machine of section
  4.8 for one run. The five processing stages run in sequence under the retry
  policy. "If Validation yields one or more valid records, the run proceeds to
  Persisting"; with no valid record there is nothing to persist, and the run is taken
  to fail at Validating (the spec names no status for this case). With backups
  enabled an unreachable backup medium is fatal before any write (section 4.6). A
  Persisting stage that fails ends the run as Failed; one that succeeds ends it as
  Succeeded when no record was excluded and as PartiallySucceeded otherwise. Next to
  the report the result gives the records handed to the Persister (none when
  Persisting is not reached). Cancellation is not modelled.
\<close>

definition run_once ::
  "PipelineConfig \<Rightarrow> environment \<Rightarrow> (PipelineRunReport \<times> inspection list) option" where
  "run_once cfg env =
     (case run_stages cfg env processing_stages empty_work [] of
        None \<Rightarrow> None
      | Some (Inl (s, f), alog) \<Rightarrow> Some (failed_run s f alog empty_work, [])
      | Some (Inr w, alog) \<Rightarrow>
          if w_batch w = [] then Some (failed_run Validating ValidationError alog w, [])
          else if backup_enabled cfg \<and> \<not> backup_available env
          then Some (failed_run Persisting BackupUnavailable alog w, [])
          else
            (case retry_loop (max_retries cfg) Persisting
                    (stage_action cfg env Persisting w) 0 alog of
               None \<Rightarrow> None
             | Some (Inl f, alog') \<Rightarrow> Some (failed_run Persisting f alog' w, w_batch w)
             | Some (Inr w', alog') \<Rightarrow>
                 Some (\<lparr>status = (if w_exclusions w = [] then Succeeded
                                   else PartiallySucceeded),
                        failed_at = None, attempts = alog',
                        validation_report = w_validation w,
                        excluded = w_exclusions w\<rparr>, w_batch w)))"

subsection \<open>What the retry policy prescribes\<close>

text \<open>
  Modelled from the spec: the retry policy of sections 4.8 and 8 read as a
  prescription, stated without the loop, against which the orchestrator above is
  compared. An attempt calls for a retry when it fails with a retryable failure,
  whether the failure is a fault of the environment or the stage's own. A stage
  stops at its final attempt: the first attempt, among those numbered below
  \<open>maxRetries\<close>, that does not call for a retry, and attempt number \<open>maxRetries\<close> when
  there is none.
\<close>

definition retryable_failure :: "failure + 'a \<Rightarrow> bool" where
  "retryable_failure x = (case x of Inl f \<Rightarrow> retryable f | Inr v \<Rightarrow> False)"

definition final_attempt :: "nat \<Rightarrow> (nat \<Rightarrow> failure + 'a) \<Rightarrow> nat" where
  "final_attempt maxRetries act =
     (case find (\<lambda>n. \<not> retryable_failure (act n)) [0..<maxRetries] of
        Some n \<Rightarrow> n
      | None \<Rightarrow> maxRetries)"

text \<open>
  Modelled from the spec: a stage entered with working state \<open>w\<close> makes the attempts
  from 0 to its final one, each logged with what it met, and its outcome is that of
  the final attempt.
\<close>

definition stage_attempts ::
  "PipelineConfig \<Rightarrow> environment \<Rightarrow> stage \<Rightarrow> work \<Rightarrow> attempt list" where
  "stage_attempts cfg env s w =
     map (logged s (stage_action cfg env s w))
       [0..<Suc (final_attempt (max_retries cfg) (stage_action cfg env s w))]"

definition stage_outcome ::
  "PipelineConfig \<Rightarrow> environment \<Rightarrow> stage \<Rightarrow> work \<Rightarrow> failure + work" where
  "stage_outcome cfg env s w =
     stage_action cfg env s w (final_attempt (max_retries cfg) (stage_action cfg env s w))"

text \<open>
  Modelled from the spec: section 4.8, the stages in sequence. \<open>reach cfg env ss w s\<close> is
  the working state with which stage \<open>s\<close> is entered when the stages \<open>ss\<close> are run in
  order from \<open>w\<close>; it is \<open>None\<close> when an earlier stage fails, so that "remaining stages"
  are skipped, or when \<open>s\<close> is not among \<open>ss\<close>.
\<close>

fun reach ::
  "PipelineConfig \<Rightarrow> environment \<Rightarrow> stage list \<Rightarrow> work \<Rightarrow> stage \<Rightarrow> work option" where
  "reach cfg env [] w s = None"
| "reach cfg env (x # xs) w s =
     (if x = s then Some w
      else case stage_outcome cfg env x w of
             Inl f \<Rightarrow> None
           | Inr w' \<Rightarrow> reach cfg env xs w' s)"

text \<open>
  Modelled from the spec: the stages a run enters, and with which working state. The
  five processing stages are entered in order from the empty working state;
  Persisting is entered after them, provided validation left at least one valid
  record (section 4.8) and, with backups enabled, the backup medium is reachable
  (section 4.6).
\<close>

definition entered :: "PipelineConfig \<Rightarrow> environment \<Rightarrow> stage \<Rightarrow> work option" where
  "entered cfg env s =
     (case reach cfg env (processing_stages @ [Persisting]) empty_work s of
        None \<Rightarrow> None
      | Some w \<Rightarrow>
          if s = Persisting
             \<and> (w_batch w = [] \<or> (backup_enabled cfg \<and> \<not> backup_available env))
          then None
          else Some w)"

text \<open>
  Modelled from the spec: section 8, "a stage that fails with a retryable error more
  than maxRetries times". A stage entered with working state \<open>w\<close> is exhausted when
  each of its first \<open>maxRetries + 1\<close> attempts fails with a retryable failure.
\<close>

definition exhausted :: "PipelineConfig \<Rightarrow> environment \<Rightarrow> stage \<Rightarrow> work \<Rightarrow> bool" where
  "exhausted cfg env s w =
     list_all (\<lambda>n. retryable_failure (stage_action cfg env s w n))
       [0..<Suc (max_retries cfg)]"

text \<open>
  The attempts of one stage within a log, and the outcome and the log the
  prescription gives for a sequence of stages run from a working state.
\<close>

definition stage_log :: "attempt list \<Rightarrow> stage \<Rightarrow> attempt list" where
  "stage_log alog s = filter (\<lambda>a. att_stage a = s) alog"

fun prescribed_outcome ::
  "PipelineConfig \<Rightarrow> environment \<Rightarrow> stage list \<Rightarrow> work \<Rightarrow> (stage \<times> failure) + work" where
  "prescribed_outcome cfg env [] w = Inr w"
| "prescribed_outcome cfg env (x # xs) w =
     (case stage_outcome cfg env x w of
        Inl f \<Rightarrow> Inl (x, f)
      | Inr w' \<Rightarrow> prescribed_outcome cfg env xs w')"

fun prescribed_log ::
  "PipelineConfig \<Rightarrow> environment \<Rightarrow> stage list \<Rightarrow> work \<Rightarrow> attempt list" where
  "prescribed_log cfg env [] w = []"
| "prescribed_log cfg env (x # xs) w =
     stage_attempts cfg env x w
       @ (case stage_outcome cfg env x w of
            Inl f \<Rightarrow> []
          | Inr w' \<Rightarrow> prescribed_log cfg env xs w')"

subsection \<open>Scenarios\<close>

text \<open>
  Modelled from the spec: Scenario D of section 8, "Ingestor times out 4 times with
  maxRetries=3", on a source of one record and with no rules.
\<close>

definition scenario_D_config :: PipelineConfig where
  "scenario_D_config =
     \<lparr>source = ''data/raw/inspections.csv'', destination = ''mapaq_dashboard.db'',
      backup_enabled = True, max_retries = 3, batch_size = 100, rules = []\<rparr>"

definition scenario_D_environment :: environment where
  "scenario_D_environment =
     \<lparr>faults = (\<lambda>s n. if s = Ingesting \<and> n < 4 then Some Timeout else None),
      backup_available = True,
      transform = (\<lambda>s w. if s = Ingesting
         then Inr (w\<lparr>w_batch := [\<lparr>record_identifier = 1, observation_date = 150, attributes = []\<rparr>]\<rparr>)
         else Inr w)\<rparr>"

text \<open>
  Modelled from the spec: a source that cannot be opened (section 4.1,
  SourceUnavailable). No fault comes from outside; the Ingestor itself fails, at
  every attempt.
\<close>

definition unavailable_source_environment :: environment where
  "unavailable_source_environment =
     \<lparr>faults = (\<lambda>s n. None), backup_available = True,
      transform = (\<lambda>s w. if s = Ingesting then Inl SourceUnavailable else Inr w)\<rparr>"

text \<open>
  Modelled from the spec: a run in the manner of Scenario B of section 8. An error
  rule requires the field \<open>name\<close> and is in effect from day 100 to day 200; a warning
  rule bounds the field \<open>score\<close>. Record 1 lacks the name on day 150, record 2 has a
  score out of range, record 3 lacks the name on day 250, outside the rule's range.
\<close>

definition name_required :: ValidationRule where
  "name_required =
     \<lparr>rule_name = ''name_required'', severity = Error,
      description = ''the establishment has a name'',
      kind = RequiredField ''name'', effective = Some (100, 200)\<rparr>"

definition score_in_range :: ValidationRule where
  "score_in_range =
     \<lparr>rule_name = ''score_in_range'', severity = Warning,
      description = ''the score lies between 0 and 100'',
      kind = Range ''score'' 0 100, effective = None\<rparr>"

definition record_1 :: inspection where
  "record_1 = \<lparr>record_identifier = 1, observation_date = 150,
                attributes = [(''score'', Num 50)]\<rparr>"

definition record_2 :: inspection where
  "record_2 = \<lparr>record_identifier = 2, observation_date = 150,
                attributes = [(''name'', Txt ''Chez Nous''), (''score'', Num 120)]\<rparr>"

definition record_3 :: inspection where
  "record_3 = \<lparr>record_identifier = 3, observation_date = 250,
                attributes = [(''score'', Num 50)]\<rparr>"

definition scenario_B_config :: PipelineConfig where
  "scenario_B_config =
     \<lparr>source = ''data/raw/inspections.csv'', destination = ''mapaq_dashboard.db'',
      backup_enabled = True, max_retries = 3, batch_size = 100,
      rules = [name_required, score_in_range]\<rparr>"

definition scenario_B_work :: work where
  "scenario_B_work =
     \<lparr>w_batch = [record_1, record_2, record_3], w_exclusions = [], w_validation = None\<rparr>"

definition scenario_B_environment :: environment where
  "scenario_B_environment =
     \<lparr>faults = (\<lambda>s n. None), backup_available = True,
      transform = (\<lambda>s w. if s = Ingesting then Inr scenario_B_work else Inr w)\<rparr>"


section \<open>Properties of APICache\<close>

lemma run_calls_Nil: "run_calls c [] = c"
  by (simp add: run_calls_def)

lemma run_calls_Cons: "run_calls c (e # evs) = run_calls (cache_step c e) evs"
  by (simp add: run_calls_def)

lemma maxAge_get: "maxAge (snd (APICache_get k now c)) = maxAge c"
  by (simp add: APICache_get_def split: option.splits)

lemma maxAge_step: "maxAge (cache_step c e) = maxAge c"
  by (cases "(c, e)" rule: cache_step.cases) (simp_all add: APICache_set_def maxAge_get)

lemma maxAge_run_calls: "maxAge (run_calls c evs) = maxAge c"
  by (induction evs arbitrary: c) (simp_all add: run_calls_Nil run_calls_Cons maxAge_step)

lemma step_absent:
  "cache c k = None \<Longrightarrow> \<not> sets_key k e \<Longrightarrow> cache (cache_step c e) k = None"
  by (cases "(c, e)" rule: cache_step.cases)
     (auto simp: APICache_set_def APICache_get_def split: option.splits)

lemma run_absent:
  "cache c k = None \<Longrightarrow> \<forall>e\<in>set evs. \<not> sets_key k e \<Longrightarrow> cache (run_calls c evs) k = None"
  by (induction evs arbitrary: c) (simp_all add: run_calls_Nil run_calls_Cons step_absent)

lemma step_present:
  "cache c k = Some it \<Longrightarrow> \<not> sets_key k e \<Longrightarrow>
   cache (cache_step c e) k = (if expired_get k (timestamp it) (maxAge c) e then None else Some it)"
  by (cases "(c, e)" rule: cache_step.cases)
     (auto simp: APICache_set_def APICache_get_def split: option.splits)

lemma run_present:
  "cache c k = Some it \<Longrightarrow> \<forall>e\<in>set evs. \<not> sets_key k e \<Longrightarrow>
   cache (run_calls c evs) k =
     (if \<exists>e\<in>set evs. expired_get k (timestamp it) (maxAge c) e then None else Some it)"
proof (induction evs arbitrary: c)
  case Nil
  then show ?case by (simp add: run_calls_Nil)
next
  case (Cons e evs)
  from Cons.prems have ne: "\<not> sets_key k e" and rest: "\<forall>e\<in>set evs. \<not> sets_key k e"
    by simp_all
  show ?case
  proof (cases "expired_get k (timestamp it) (maxAge c) e")
    case True
    with Cons.prems(1) ne have "cache (cache_step c e) k = None"
      by (simp add: step_present)
    then have "cache (run_calls (cache_step c e) evs) k = None"
      using rest by (rule run_absent)
    with True show ?thesis by (simp add: run_calls_Cons)
  next
    case False
    with Cons.prems(1) ne have "cache (cache_step c e) k = Some it"
      by (simp add: step_present)
    from Cons.IH [OF this rest] False show ?thesis
      by (simp add: run_calls_Cons maxAge_step)
  qed
qed

lemma set_entry: "cache (APICache_set k d t c) k = Some \<lparr>data = d, timestamp = t\<rparr>"
  by (simp add: APICache_set_def)


lemma get_absent: "cache c k = None \<Longrightarrow> APICache_get k now c = (None, c)"
  by (simp add: APICache_get_def)

lemma get_fresh:
  "cache c k = Some it \<Longrightarrow> now - timestamp it \<le> maxAge c \<Longrightarrow>
   APICache_get k now c = (Some (data it), c)"
  by (simp add: APICache_get_def)

lemma get_expired:
  "cache c k = Some it \<Longrightarrow> now - timestamp it > maxAge c \<Longrightarrow>
   APICache_get k now c = (None, c\<lparr>cache := (cache c)(k := None)\<rparr>)"
  by (simp add: APICache_get_def)

lemma get_deletes_when_null:
  "fst (APICache_get k now c) = None \<Longrightarrow> cache (snd (APICache_get k now c)) k = None"
  by (auto simp: APICache_get_def split: option.splits if_splits)

text \<open>
  Claim C8. Let \<open>set(k, d)\<close>, called at clock reading \<open>t\<close>, be the most recent \<open>set\<close> on key
  \<open>k\<close>: any calls \<open>evs1\<close> precede it on a cache \<open>c0\<close>, and the later calls \<open>evs2\<close> contain
  no \<open>set\<close> on \<open>k\<close>. Then for a \<open>get(k)\<close> at clock reading \<open>now\<close>:
  \<^item> when the entry is at most \<open>maxAge\<close> old (\<open>now - t \<le> maxAge\<close>) and no earlier \<open>get(k)\<close>
    found it expired, \<open>get\<close> returns exactly \<open>d\<close> and leaves the cache as it is;
  \<^item> when the entry is older than \<open>maxAge\<close>, \<open>get\<close> returns null;
  \<^item> when \<open>k\<close> was never set on a new cache, \<open>get\<close> returns null;
  \<^item> whenever \<open>get\<close> returns null, the entry is gone from the cache afterwards, and
    every later \<open>get(k)\<close> with no intervening \<open>set\<close> on \<open>k\<close> returns null again, whatever
    the clock reads then (this also covers an entry that an earlier \<open>get\<close> found expired).
\<close>

theorem APICache_get_most_recent_set:
  fixes c0 :: "('k, 'd) APICache" and evs1 evs2 evs0 :: "('k, 'd) cache_event list"
    and k :: 'k and d :: 'd and t now m :: int
  assumes no_set: "\<forall>e\<in>set evs2. \<not> sets_key k e"
  defines "c \<equiv> run_calls (APICache_set k d t (run_calls c0 evs1)) evs2"
  shows "((\<forall>e\<in>set evs2. \<not> expired_get k t (maxAge c0) e) \<and> now - t \<le> maxAge c0
            \<longrightarrow> APICache_get k now c = (Some d, c))
       \<and> (now - t > maxAge c0
            \<longrightarrow> fst (APICache_get k now c) = None)
       \<and> ((\<forall>e\<in>set evs0. \<not> sets_key k e)
            \<longrightarrow> APICache_get k now (run_calls (new_APICache m) evs0)
                = (None, run_calls (new_APICache m) evs0))
       \<and> (fst (APICache_get k now c) = None
            \<longrightarrow> cache (snd (APICache_get k now c)) k = None
              \<and> (\<forall>evs3 now'. (\<forall>e\<in>set evs3. \<not> sets_key k e)
                    \<longrightarrow> fst (APICache_get k now' (run_calls (snd (APICache_get k now c)) evs3)) = None))"
proof -
  let ?s = "APICache_set k d t (run_calls c0 evs1)"
  let ?it = "\<lparr>data = d, timestamp = t\<rparr>"
  have m: "maxAge ?s = maxAge c0" "maxAge c = maxAge c0"
    by (simp_all add: c_def APICache_set_def maxAge_run_calls)
  have ent: "cache c k = (if \<exists>e\<in>set evs2. expired_get k t (maxAge c0) e then None else Some ?it)"
    unfolding c_def using run_present [OF set_entry no_set, of d t "run_calls c0 evs1"] m(1)
    by simp
  have fresh: "(\<forall>e\<in>set evs2. \<not> expired_get k t (maxAge c0) e) \<and> now - t \<le> maxAge c0
      \<longrightarrow> APICache_get k now c = (Some d, c)"
    using ent get_fresh [of c k ?it now] m(2) by auto
  have old: "now - t > maxAge c0 \<longrightarrow> fst (APICache_get k now c) = None"
    using ent m(2) by (auto simp: APICache_get_def)
  have never: "(\<forall>e\<in>set evs0. \<not> sets_key k e)
      \<longrightarrow> APICache_get k now (run_calls (new_APICache m) evs0)
        = (None, run_calls (new_APICache m) evs0)"
  proof
    assume "\<forall>e\<in>set evs0. \<not> sets_key k e"
    moreover have "cache (new_APICache m :: ('k, 'd) APICache) k = None"
      by (simp add: new_APICache_def)
    ultimately have "cache (run_calls (new_APICache m :: ('k, 'd) APICache) evs0) k = None"
      by (simp add: run_absent)
    then show "APICache_get k now (run_calls (new_APICache m) evs0)
        = (None, run_calls (new_APICache m :: ('k, 'd) APICache) evs0)"
      by (rule get_absent)
  qed
  have later: "fst (APICache_get k now c) = None
      \<longrightarrow> cache (snd (APICache_get k now c)) k = None
        \<and> (\<forall>evs3 now'. (\<forall>e\<in>set evs3. \<not> sets_key k e)
              \<longrightarrow> fst (APICache_get k now' (run_calls (snd (APICache_get k now c)) evs3)) = None)"
  proof
    assume "fst (APICache_get k now c) = None"
    then have gone: "cache (snd (APICache_get k now c)) k = None"
      by (rule get_deletes_when_null)
    have "fst (APICache_get k now' (run_calls (snd (APICache_get k now c)) evs3)) = None"
      if "\<forall>e\<in>set evs3. \<not> sets_key k e" for evs3 now'
      using run_absent [OF gone that] by (simp add: get_absent)
    with gone show "cache (snd (APICache_get k now c)) k = None
        \<and> (\<forall>evs3 now'. (\<forall>e\<in>set evs3. \<not> sets_key k e)
              \<longrightarrow> fst (APICache_get k now' (run_calls (snd (APICache_get k now c)) evs3)) = None)"
      by blast
  qed
  from fresh old never later show ?thesis by blast
qed

text \<open>
  A history on the default cache (\<open>maxAge = 300000\<close>): the entry stamped 5 is returned
  at clock reading 300005 and has expired at 300006; a key never set yields null.
\<close>

theorem APICache_get_most_recent_set_witness:
  "fst (APICache_get ''a'' 300005
          (run_calls (APICache_set ''a'' (2::int) 5 (run_calls default_APICache [(0, Set ''a'' 1)]))
             [(10, Get ''a''), (20, Set ''b'' 7)])) = Some 2
   \<and> fst (APICache_get ''a'' 300006
          (run_calls (APICache_set ''a'' (2::int) 5 (run_calls default_APICache [(0, Set ''a'' 1)]))
             [(10, Get ''a''), (20, Set ''b'' 7)])) = None
   \<and> fst (APICache_get ''a'' 300005
          (run_calls (new_APICache 300000) [(3, Set ''b'' (7::int)), (4, Get ''a'')])) = None"
proof -
  let ?evs2 = "[(10, Get ''a''), (20, Set ''b'' (7::int))]"
  let ?evs0 = "[(3, Set ''b'' (7::int)), (4, Get ''a'')]"
  have no_set: "\<forall>e\<in>set ?evs2. \<not> sets_key ''a'' e"
    by simp
  have no_exp: "\<forall>e\<in>set ?evs2. \<not> expired_get ''a'' 5 (maxAge (default_APICache :: (string, int) APICache)) e"
    by (simp add: default_APICache_def new_APICache_def)
  have never: "\<forall>e\<in>set ?evs0. \<not> sets_key ''a'' e"
    by simp
  have age1: "(300005::int) - 5 \<le> maxAge (default_APICache :: (string, int) APICache)"
    by (simp add: default_APICache_def new_APICache_def)
  have age2: "(300006::int) - 5 > maxAge (default_APICache :: (string, int) APICache)"
    by (simp add: default_APICache_def new_APICache_def)
  note a = APICache_get_most_recent_set [OF no_set, where d = 2 and t = 5
      and ?c0.0 = default_APICache and ?evs1.0 = "[(0, Set ''a'' 1)]" and now = 300005
      and ?evs0.0 = ?evs0 and m = 300000]
  note b = APICache_get_most_recent_set [OF no_set, where d = 2 and t = 5
      and ?c0.0 = default_APICache and ?evs1.0 = "[(0, Set ''a'' 1)]" and now = 300006
      and ?evs0.0 = ?evs0 and m = 300000]
  from a no_exp age1 have 1: "fst (APICache_get ''a'' 300005
          (run_calls (APICache_set ''a'' (2::int) 5 (run_calls default_APICache [(0, Set ''a'' 1)]))
             ?evs2)) = Some 2"
    by simp
  from b age2 have 2: "fst (APICache_get ''a'' 300006
          (run_calls (APICache_set ''a'' (2::int) 5 (run_calls default_APICache [(0, Set ''a'' 1)]))
             ?evs2)) = None"
    by blast
  from a never have 3: "fst (APICache_get ''a'' 300005
          (run_calls (new_APICache 300000) ?evs0)) = None"
    by simp
  from 1 2 3 show ?thesis by blast
qed


section \<open>Properties of LazyLoader\<close>

lemma load_unobserve_keeps_loaded_once:
  "loaded_once s \<Longrightarrow> el \<in> observed s \<Longrightarrow> loaded_once (unobserve el (loadComponent el s))"
  by (auto simp: loaded_once_def unobserve_def loadComponent_def)

lemma observed_load_unobserve:
  "observed (unobserve el (loadComponent el s)) = observed s - {el}"
  by (simp add: unobserve_def loadComponent_def)

lemma callback_keeps_loaded_once_aux:
  "loaded_once s \<Longrightarrow> \<forall>en\<in>set (filter isIntersecting b). target en \<in> observed s \<Longrightarrow>
   once_each b \<Longrightarrow> loaded_once (callback b s)"
proof (induction b arbitrary: s)
  case Nil
  then show ?case by simp
next
  case (Cons en ens)
  show ?case
  proof (cases "isIntersecting en")
    case False
    with Cons.prems have "\<forall>x\<in>set (filter isIntersecting ens). target x \<in> observed s" "once_each ens"
      by (simp_all add: once_each_def)
    with Cons.IH [OF Cons.prems(1)] False show ?thesis by simp
  next
    case True
    let ?s = "unobserve (target en) (loadComponent (target en) s)"
    from Cons.prems(2) True have here: "target en \<in> observed s"
      and rest: "\<forall>x\<in>set (filter isIntersecting ens). target x \<in> observed s"
      by simp_all
    from Cons.prems(3) True have fresh: "target en \<notin> target ` set (filter isIntersecting ens)"
      and once: "once_each ens"
      by (simp_all add: once_each_def)
    from Cons.prems(1) here have inv: "loaded_once ?s"
      by (rule load_unobserve_keeps_loaded_once)
    have "\<forall>x\<in>set (filter isIntersecting ens). target x \<in> observed ?s"
    proof
      fix x assume x: "x \<in> set (filter isIntersecting ens)"
      with fresh have "target x \<noteq> target en" by (metis imageI)
      with rest x show "target x \<in> observed ?s"
        by (simp add: observed_load_unobserve)
    qed
    from Cons.IH [OF inv this once] True show ?thesis by simp
  qed
qed

lemma callback_keeps_loaded_once:
  "loaded_once s \<Longrightarrow> reports_observed b s \<Longrightarrow> once_each b \<Longrightarrow> loaded_once (callback b s)"
  by (rule callback_keeps_loaded_once_aux) (auto simp: reports_observed_def list_all_iff)

lemma notify_keeps_loaded_once:
  "loaded_once s \<Longrightarrow> admissible bs s \<Longrightarrow> all_once_each bs \<Longrightarrow> loaded_once (notify bs s)"
  by (induction bs arbitrary: s) (simp_all add: callback_keeps_loaded_once)

lemma loaded_observeElements: "loaded (observeElements els s) = loaded s"
  by (induction els arbitrary: s) (simp_all add: observe_def)

lemma loaded_once_init: "loaded_once (init True elems)"
  by (simp add: init_def loaded_once_def loaded_observeElements)

lemma loaded_callback:
  "set (loaded (callback b s)) = set (loaded s) \<union> set (map target (filter isIntersecting b))"
  by (induction b arbitrary: s) (auto simp: unobserve_def loadComponent_def)

lemma observed_callback:
  "observed (callback b s) = observed s - set (map target (filter isIntersecting b))"
  by (induction b arbitrary: s) (auto simp: unobserve_def loadComponent_def)

lemma loaded_notify:
  "set (loaded (notify bs s)) = set (loaded s) \<union> intersecting_targets bs"
  by (induction bs arbitrary: s) (auto simp: intersecting_targets_def loaded_callback)

lemma observed_notify:
  "observed (notify bs s) = observed s - intersecting_targets bs"
  by (induction bs arbitrary: s) (auto simp: intersecting_targets_def observed_callback)

lemma count_list_distinct: "distinct xs \<Longrightarrow> count_list xs x = (if x \<in> set xs then 1 else 0)"
  by (induction xs) auto

text \<open>
  Claim C9, as amended. Let the browser notify the loader any number of times, each
  notification reporting observed targets only, and let no notification report the
  same target as intersecting twice. Then every element reported as intersecting is
  passed to \<open>loadComponent\<close> exactly once and is no longer observed, and every other
  element is never passed to it: no element is loaded a second time by the callback.
\<close>

theorem LazyLoader_loads_once_per_notified_target:
  assumes "admissible bs (init True elems)" and "all_once_each bs"
  shows "count_list (loaded (notify bs (init True elems))) el
           = (if el \<in> intersecting_targets bs then 1 else 0)
       \<and> (el \<in> intersecting_targets bs \<longrightarrow> el \<notin> observed (notify bs (init True elems)))"
proof -
  from loaded_once_init assms have "loaded_once (notify bs (init True elems))"
    by (rule notify_keeps_loaded_once)
  then have "distinct (loaded (notify bs (init True elems)))"
    by (simp add: loaded_once_def)
  then have "count_list (loaded (notify bs (init True elems))) el
      = (if el \<in> set (loaded (notify bs (init True elems))) then 1 else 0)"
    by (rule count_list_distinct)
  moreover have "set (loaded (notify bs (init True elems))) = intersecting_targets bs"
    by (simp add: loaded_notify init_def loaded_observeElements)
  ultimately show ?thesis
    by (simp add: observed_notify)
qed

text \<open>
  Claim C9 as stated fails for a notification that reports one target as intersecting
  twice: \<open>forEach\<close> handles both entries, and \<open>unobserve\<close> after the first does not remove
  the second from the list already handed over. The element is observed when the
  notification arrives, and \<open>loadComponent\<close> is called on it twice.
\<close>

theorem LazyLoader_loads_twice:
  "reports_observed [\<lparr>target = 1, isIntersecting = True\<rparr>, \<lparr>target = 1, isIntersecting = True\<rparr>]
     (init True [1::nat])
   \<and> count_list
       (loaded (callback [\<lparr>target = 1, isIntersecting = True\<rparr>, \<lparr>target = 1, isIntersecting = True\<rparr>]
                  (init True [1::nat]))) 1 = 2"
  by (simp add: init_def observe_def unobserve_def loadComponent_def reports_observed_def)

text \<open>
  Two notifications on three observed elements: element 2 intersects in the first,
  element 1 in the second; element 3 never does.
\<close>

theorem LazyLoader_loads_once_witness:
  "admissible [[\<lparr>target = 1, isIntersecting = False\<rparr>, \<lparr>target = 2, isIntersecting = True\<rparr>],
               [\<lparr>target = 1, isIntersecting = True\<rparr>, \<lparr>target = 1, isIntersecting = False\<rparr>]]
     (init True [1::nat, 2, 3])
   \<and> all_once_each [[\<lparr>target = 1::nat, isIntersecting = False\<rparr>, \<lparr>target = 2, isIntersecting = True\<rparr>],
               [\<lparr>target = 1, isIntersecting = True\<rparr>, \<lparr>target = 1, isIntersecting = False\<rparr>]]
   \<and> count_list (loaded (notify
        [[\<lparr>target = 1, isIntersecting = False\<rparr>, \<lparr>target = 2, isIntersecting = True\<rparr>],
         [\<lparr>target = 1, isIntersecting = True\<rparr>, \<lparr>target = 1, isIntersecting = False\<rparr>]]
        (init True [1::nat, 2, 3]))) 1 = 1
   \<and> count_list (loaded (notify
        [[\<lparr>target = 1, isIntersecting = False\<rparr>, \<lparr>target = 2, isIntersecting = True\<rparr>],
         [\<lparr>target = 1, isIntersecting = True\<rparr>, \<lparr>target = 1, isIntersecting = False\<rparr>]]
        (init True [1::nat, 2, 3]))) 3 = 0"
proof -
  let ?bs = "[[\<lparr>target = 1::nat, isIntersecting = False\<rparr>, \<lparr>target = 2, isIntersecting = True\<rparr>],
               [\<lparr>target = 1, isIntersecting = True\<rparr>, \<lparr>target = 1, isIntersecting = False\<rparr>]]"
  have a: "admissible ?bs (init True [1::nat, 2, 3])"
    by (simp add: init_def observe_def unobserve_def loadComponent_def reports_observed_def)
  have b: "all_once_each ?bs"
    by (simp add: once_each_def)
  have c: "1 \<in> intersecting_targets ?bs" "3 \<notin> intersecting_targets ?bs"
    by (simp_all add: intersecting_targets_def)
  from a b c LazyLoader_loads_once_per_notified_target [OF a b, of 1]
    LazyLoader_loads_once_per_notified_target [OF a b, of 3]
  show ?thesis
    by simp
qed


section \<open>Properties of PerformanceMonitor\<close>

text \<open>
  Claim C10. \<open>reportMetrics\<close> issues one request, a POST to
  \<open>/api/v1/performance-metrics\<close> whose body carries the stored metrics, when the random
  draw is strictly below 0.1; for any other draw it issues no request; in both cases
  the monitor, and with it the stored metrics object, is left unchanged.
\<close>

theorem reportMetrics_samples_one_tenth:
  "(draw < 1 / 10 \<longrightarrow>
      (\<exists>r. requests (fst (reportMetrics draw now href rejected pm)) = [r]
          \<and> req_url r = ''/api/v1/performance-metrics'' \<and> req_method r = ''POST''
          \<and> body_metrics (req_body r) = metrics pm))
   \<and> (\<not> draw < 1 / 10 \<longrightarrow> requests (fst (reportMetrics draw now href rejected pm)) = [])
   \<and> snd (reportMetrics draw now href rejected pm) = pm"
  by (simp add: reportMetrics_def)

text \<open>
  A draw of 0.05 sends the metrics; a draw of exactly 0.1 does not.
\<close>

theorem reportMetrics_samples_one_tenth_witness:
  "length (requests (fst (reportMetrics (5 / 100) 1700000000000 ''http://127.0.0.1:5000/'' None
      \<lparr>metrics = \<lparr>pageLoad = None, largestContentfulPaint = Some 812, interactions = None\<rparr>\<rparr>))) = 1
   \<and> requests (fst (reportMetrics (1 / 10) 1700000000000 ''http://127.0.0.1:5000/'' None
      \<lparr>metrics = \<lparr>pageLoad = None, largestContentfulPaint = Some 812, interactions = None\<rparr>\<rparr>)) = []
   \<and> metrics (snd (reportMetrics (5 / 100) 1700000000000 ''http://127.0.0.1:5000/'' None
      \<lparr>metrics = \<lparr>pageLoad = None, largestContentfulPaint = Some 812, interactions = None\<rparr>\<rparr>))
     = \<lparr>pageLoad = None, largestContentfulPaint = Some 812, interactions = None\<rparr>"
proof -
  let ?pm = "\<lparr>metrics = \<lparr>pageLoad = None, largestContentfulPaint = Some 812, interactions = None\<rparr>\<rparr>"
  have lo: "(5 / 100 :: real) < 1 / 10" and hi: "\<not> (1 / 10 :: real) < 1 / 10"
    by simp_all
  from lo hi
    reportMetrics_samples_one_tenth [of "5 / 100" 1700000000000 "''http://127.0.0.1:5000/''" None ?pm]
    reportMetrics_samples_one_tenth [of "1 / 10" 1700000000000 "''http://127.0.0.1:5000/''" None ?pm]
  show ?thesis
    by auto
qed


section \<open>Properties of the retry policy\<close>

text \<open>
  The retry loop returns: it stops at some attempt \<open>k\<close>, having logged the attempts from
  \<open>n\<close> to \<open>k\<close>, every attempt before \<open>k\<close> having failed with a retryable failure.
\<close>

lemma retry_loop_returns:
  "\<exists>k. retry_loop mr s act n alog = Some (act k, alog @ map (logged s act) [n..<Suc k])
       \<and> n \<le> k \<and> (k \<le> mr \<or> k = n)
       \<and> (\<forall>i. n \<le> i \<and> i < k \<longrightarrow> (\<exists>f. act i = Inl f \<and> retryable f))
       \<and> (\<forall>f. act k = Inl f \<longrightarrow> \<not> (retryable f \<and> k < mr))"
proof (induction "mr - n" arbitrary: n alog)
  case 0
  then have stop: "\<not> n < mr" by simp
  show ?case
  proof (cases "act n")
    case (Inl f)
    with stop have "retry_loop mr s act n alog = Some (act n, alog @ map (logged s act) [n..<Suc n])"
      by (subst retry_loop.simps) simp
    with stop Inl show ?thesis by (intro exI [of _ n]) auto
  next
    case (Inr v)
    then have "retry_loop mr s act n alog = Some (act n, alog @ map (logged s act) [n..<Suc n])"
      by (subst retry_loop.simps) simp
    with Inr show ?thesis by (intro exI [of _ n]) auto
  qed
next
  case (Suc d)
  then have lt: "n < mr" and d: "d = mr - Suc n" by simp_all
  show ?case
  proof (cases "act n")
    case (Inr v)
    then have "retry_loop mr s act n alog = Some (act n, alog @ map (logged s act) [n..<Suc n])"
      by (subst retry_loop.simps) simp
    with Inr lt show ?thesis by (intro exI [of _ n]) auto
  next
    case (Inl f)
    show ?thesis
    proof (cases "retryable f")
      case False
      with Inl have "retry_loop mr s act n alog = Some (act n, alog @ map (logged s act) [n..<Suc n])"
        by (subst retry_loop.simps) simp
      with Inl False lt show ?thesis by (intro exI [of _ n]) auto
    next
      case True
      with Inl lt have unfold: "retry_loop mr s act n alog
          = retry_loop mr s act (Suc n) (alog @ [logged s act n])"
        by (subst retry_loop.simps) simp
      from Suc.hyps(1) [OF d, of "alog @ [logged s act n]"] obtain k where
        k: "retry_loop mr s act (Suc n) (alog @ [logged s act n])
              = Some (act k, (alog @ [logged s act n]) @ map (logged s act) [Suc n..<Suc k])"
        and le: "Suc n \<le> k" and bound: "k \<le> mr \<or> k = Suc n"
        and before: "\<forall>i. Suc n \<le> i \<and> i < k \<longrightarrow> (\<exists>f. act i = Inl f \<and> retryable f)"
        and last: "\<forall>f. act k = Inl f \<longrightarrow> \<not> (retryable f \<and> k < mr)"
        by blast
      from le have "[n..<Suc k] = n # [Suc n..<Suc k]"
        by (simp add: upt_conv_Cons)
      with unfold k have "retry_loop mr s act n alog
          = Some (act k, alog @ map (logged s act) [n..<Suc k])"
        by simp
      moreover from le have "n \<le> k" by simp
      moreover from bound lt have "k \<le> mr \<or> k = n" by auto
      moreover have "\<forall>i. n \<le> i \<and> i < k \<longrightarrow> (\<exists>f. act i = Inl f \<and> retryable f)"
      proof (intro allI impI)
        fix i assume i: "n \<le> i \<and> i < k"
        show "\<exists>f. act i = Inl f \<and> retryable f"
        proof (cases "i = n")
          case True
          with Inl \<open>retryable f\<close> show ?thesis by simp
        next
          case False
          with i before show ?thesis by simp
        qed
      qed
      ultimately show ?thesis using last by blast
    qed
  qed
qed


lemma stage_log_block:
  "stage_log (map (logged s act) ns) s' = (if s' = s then map (logged s act) ns else [])"
  by (induction ns) (simp_all add: stage_log_def logged_def)

lemma stage_log_append: "stage_log (xs @ ys) s = stage_log xs s @ stage_log ys s"
  by (simp add: stage_log_def)

lemma att_number_block: "map att_number (map (logged s act) ns) = ns"
  by (induction ns) (simp_all add: logged_def)

lemma fault_logged:
  "faults env s n = Some f \<Longrightarrow> att_failure (logged s (stage_action cfg env s w) n) = Some f"
  by (simp add: logged_def stage_action_def)

lemma retry_loop_from_0:
  "\<exists>k. retry_loop mr s act 0 alog = Some (act k, alog @ map (logged s act) [0..<Suc k])
       \<and> k \<le> mr
       \<and> (\<forall>i. i < k \<longrightarrow> (\<exists>f. act i = Inl f \<and> retryable f))
       \<and> (\<forall>f. act k = Inl f \<longrightarrow> \<not> (retryable f \<and> k < mr))"
proof -
  from retry_loop_returns [of mr s act 0 alog] obtain k where
    ret: "retry_loop mr s act 0 alog = Some (act k, alog @ map (logged s act) [0..<Suc k])"
    and bound: "k \<le> mr \<or> k = 0"
    and before: "\<forall>i. 0 \<le> i \<and> i < k \<longrightarrow> (\<exists>f. act i = Inl f \<and> retryable f)"
    and last: "\<forall>f. act k = Inl f \<longrightarrow> \<not> (retryable f \<and> k < mr)"
    by blast
  from bound have "k \<le> mr" by auto
  moreover from before have "\<forall>i. i < k \<longrightarrow> (\<exists>f. act i = Inl f \<and> retryable f)" by simp
  ultimately show ?thesis using ret last by blast
qed


lemma find_upt_None: "find P [0..<m] = None \<Longrightarrow> i < m \<Longrightarrow> \<not> P i"
  by (simp add: find_None_iff)

lemma find_upt_Some:
  "find P [0..<m] = Some n \<Longrightarrow> n < m \<and> P n \<and> (\<forall>j<n. \<not> P j)"
  by (auto simp: find_Some_iff)

lemma final_attempt_le: "final_attempt mr act \<le> mr"
  by (auto simp: final_attempt_def split: option.splits dest: find_upt_Some)

lemma final_attempt_before: "i < final_attempt mr act \<Longrightarrow> retryable_failure (act i)"
  by (auto simp: final_attempt_def split: option.splits dest: find_upt_Some find_upt_None)

lemma final_attempt_stops:
  "final_attempt mr act < mr \<Longrightarrow> \<not> retryable_failure (act (final_attempt mr act))"
  by (auto simp: final_attempt_def split: option.splits dest: find_upt_Some)

lemma final_attempt_unique:
  assumes "k \<le> mr" and "\<forall>i<k. retryable_failure (act i)"
    and "k < mr \<longrightarrow> \<not> retryable_failure (act k)"
  shows "final_attempt mr act = k"
proof (rule ccontr)
  assume ne: "final_attempt mr act \<noteq> k"
  show False
  proof (cases "final_attempt mr act < k")
    case True
    with assms(1,2) final_attempt_stops [of mr act] show False by auto
  next
    case False
    with ne have lt: "k < final_attempt mr act" by simp
    with final_attempt_le [of mr act] have "k < mr" by simp
    with assms(3) final_attempt_before [OF lt] show False by simp
  qed
qed

lemma retry_loop_result:
  "retry_loop mr s act 0 alog
     = Some (act (final_attempt mr act), alog @ map (logged s act) [0..<Suc (final_attempt mr act)])"
proof -
  from retry_loop_from_0 [of mr s act alog] obtain k where
    ret: "retry_loop mr s act 0 alog = Some (act k, alog @ map (logged s act) [0..<Suc k])"
    and k: "k \<le> mr"
    and before: "\<forall>i. i < k \<longrightarrow> (\<exists>f. act i = Inl f \<and> retryable f)"
    and last: "\<forall>f. act k = Inl f \<longrightarrow> \<not> (retryable f \<and> k < mr)"
    by blast
  from before have b: "\<forall>i<k. retryable_failure (act i)"
    by (auto simp: retryable_failure_def)
  from last have l: "k < mr \<longrightarrow> \<not> retryable_failure (act k)"
    by (auto simp: retryable_failure_def split: sum.splits)
  from k b l have "final_attempt mr act = k" by (rule final_attempt_unique)
  with ret show ?thesis by simp
qed

lemma stage_result:
  "retry_loop (max_retries cfg) s (stage_action cfg env s w) 0 alog
     = Some (stage_outcome cfg env s w, alog @ stage_attempts cfg env s w)"
  by (simp only: retry_loop_result stage_outcome_def stage_attempts_def)

lemma run_stages_result:
  "run_stages cfg env ss w alog
     = Some (prescribed_outcome cfg env ss w, alog @ prescribed_log cfg env ss w)"
proof (induction ss arbitrary: w alog)
  case Nil
  show ?case by simp
next
  case (Cons x xs)
  show ?case
  proof (cases "stage_outcome cfg env x w")
    case (Inl f)
    then show ?thesis by (simp add: stage_result)
  next
    case (Inr w')
    then show ?thesis by (simp add: stage_result Cons.IH)
  qed
qed


lemma stage_log_Nil: "stage_log [] s = []"
  by (simp add: stage_log_def)

lemma stage_log_stage_attempts:
  "stage_log (stage_attempts cfg env x w) s = (if s = x then stage_attempts cfg env x w else [])"
  by (simp only: stage_attempts_def stage_log_block)

lemma reach_outside: "s \<notin> set ss \<Longrightarrow> reach cfg env ss w s = None"
  by (induction ss arbitrary: w) (auto split: sum.splits)

lemma stage_log_prescribed:
  "distinct ss \<Longrightarrow>
   stage_log (prescribed_log cfg env ss w) s
     = (case reach cfg env ss w s of None \<Rightarrow> [] | Some ws \<Rightarrow> stage_attempts cfg env s ws)"
proof (induction ss arbitrary: w)
  case Nil
  show ?case by (simp add: stage_log_def)
next
  case (Cons x xs)
  then have fresh: "x \<notin> set xs" and dist: "distinct xs" by simp_all
  show ?case
  proof (cases "s = x")
    case True
    have "stage_log (prescribed_log cfg env xs w') x = []" for w'
      using Cons.IH [OF dist, of w'] fresh True by (simp add: reach_outside)
    with True show ?thesis
      by (simp add: stage_log_append stage_log_stage_attempts stage_log_Nil split: sum.splits)
  next
    case False
    then have "x \<noteq> s" by simp
    with Cons.IH [OF dist] show ?thesis
      by (simp add: stage_log_append stage_log_stage_attempts stage_log_Nil split: sum.splits)
  qed
qed

lemma prescribed_failure:
  "reach cfg env ss w s = Some ws \<Longrightarrow> stage_outcome cfg env s ws = Inl f \<Longrightarrow>
   prescribed_outcome cfg env ss w = Inl (s, f)"
  by (induction ss arbitrary: w) (auto split: sum.splits if_splits)

lemma reach_snoc_other:
  "s \<noteq> p \<Longrightarrow> reach cfg env (ss @ [p]) w s = reach cfg env ss w s"
  by (induction ss arbitrary: w) (auto split: sum.splits)

lemma reach_snoc:
  "p \<notin> set ss \<Longrightarrow>
   reach cfg env (ss @ [p]) w p
     = (case prescribed_outcome cfg env ss w of Inl sf \<Rightarrow> None | Inr w' \<Rightarrow> Some w')"
  by (induction ss arbitrary: w) (auto split: sum.splits)

lemma processing_stages_facts:
  "distinct processing_stages" "Persisting \<notin> set processing_stages"
  by (simp_all add: processing_stages_def)

lemma entered_processing:
  "s \<noteq> Persisting \<Longrightarrow> entered cfg env s = reach cfg env processing_stages empty_work s"
  by (simp add: entered_def reach_snoc_other split: option.splits)

lemma entered_Persisting:
  "entered cfg env Persisting
     = (case prescribed_outcome cfg env processing_stages empty_work of
          Inl sf \<Rightarrow> None
        | Inr w \<Rightarrow>
            if w_batch w = [] \<or> (backup_enabled cfg \<and> \<not> backup_available env) then None
            else Some w)"
  by (simp add: entered_def reach_snoc processing_stages_facts split: sum.splits)

lemma exhausted_iff:
  "exhausted cfg env s w
     \<longleftrightarrow> (\<forall>n\<le>max_retries cfg. retryable_failure (stage_action cfg env s w n))"
  by (auto simp: exhausted_def list_all_iff less_Suc_eq_le simp del: upt_Suc)

lemma exhausted_outcome:
  assumes "exhausted cfg env s w"
  shows "final_attempt (max_retries cfg) (stage_action cfg env s w) = max_retries cfg"
    and "\<exists>f. stage_outcome cfg env s w = Inl f \<and> retryable f"
proof -
  from assms have all: "\<forall>n\<le>max_retries cfg. retryable_failure (stage_action cfg env s w n)"
    by (simp add: exhausted_iff)
  then show fin: "final_attempt (max_retries cfg) (stage_action cfg env s w) = max_retries cfg"
    by (intro final_attempt_unique) simp_all
  from all have "retryable_failure (stage_action cfg env s w (max_retries cfg))" by simp
  with fin show "\<exists>f. stage_outcome cfg env s w = Inl f \<and> retryable f"
    by (auto simp: stage_outcome_def retryable_failure_def split: sum.splits)
qed

text \<open>
  What the prescribed form of the attempts of one stage entails.
\<close>

lemma stage_attempts_facts:
  "length (stage_attempts cfg env s w) \<le> max_retries cfg + 1"
  "map att_number (stage_attempts cfg env s w) = [0..<length (stage_attempts cfg env s w)]"
  "\<forall>a\<in>set (butlast (stage_attempts cfg env s w)). \<exists>f. att_failure a = Some f \<and> retryable f"
  "\<forall>a\<in>set (stage_attempts cfg env s w). att_stage a = s
      \<and> (\<forall>f. faults env s (att_number a) = Some f \<longrightarrow> att_failure a = Some f)"
  "stage_attempts cfg env s w \<noteq> []"
proof -
  let ?act = "stage_action cfg env s w"
  let ?k = "final_attempt (max_retries cfg) ?act"
  show "length (stage_attempts cfg env s w) \<le> max_retries cfg + 1"
    using final_attempt_le [of "max_retries cfg" ?act] by (simp add: stage_attempts_def)
  show "map att_number (stage_attempts cfg env s w) = [0..<length (stage_attempts cfg env s w)]"
    by (simp only: stage_attempts_def att_number_block length_map length_upt) simp
  have "butlast (stage_attempts cfg env s w) = map (logged s ?act) [0..<?k]"
    by (simp add: stage_attempts_def)
  moreover have "\<exists>f. att_failure (logged s ?act i) = Some f \<and> retryable f" if "i < ?k" for i
    using final_attempt_before [OF that]
    by (auto simp: logged_def retryable_failure_def split: sum.splits)
  ultimately show "\<forall>a\<in>set (butlast (stage_attempts cfg env s w)).
      \<exists>f. att_failure a = Some f \<and> retryable f"
    by auto
  show "\<forall>a\<in>set (stage_attempts cfg env s w). att_stage a = s
      \<and> (\<forall>f. faults env s (att_number a) = Some f \<longrightarrow> att_failure a = Some f)"
  proof
    fix a assume "a \<in> set (stage_attempts cfg env s w)"
    then obtain i where i: "a = logged s ?act i" by (auto simp: stage_attempts_def)
    then have "att_stage a = s" "att_number a = i" by (simp_all add: logged_def)
    with i show "att_stage a = s
        \<and> (\<forall>f. faults env s (att_number a) = Some f \<longrightarrow> att_failure a = Some f)"
      by (simp add: fault_logged)
  qed
  show "stage_attempts cfg env s w \<noteq> []"
    by (simp add: stage_attempts_def)
qed


lemma attempts_of_stage_log: "attempts_of rep s = stage_log (attempts rep) s"
  by (simp add: attempts_of_def stage_log_def)

text \<open>
  A report whose attempts are, stage by stage, the prescribed ones, and which fails
  where a stage's outcome is a failure, meets every part of the retry policy.
\<close>

lemma retry_policy_of_stage:
  assumes att: "attempts_of rep s
      = (case entered cfg env s of None \<Rightarrow> [] | Some w \<Rightarrow> stage_attempts cfg env s w)"
    and fail: "\<forall>w f. entered cfg env s = Some w \<and> stage_outcome cfg env s w = Inl f
      \<longrightarrow> status rep = Failed \<and> failed_at rep = Some (s, f)"
  shows "length (attempts_of rep s) \<le> max_retries cfg + 1
       \<and> map att_number (attempts_of rep s) = [0..<length (attempts_of rep s)]
       \<and> (\<forall>a\<in>set (butlast (attempts_of rep s)). \<exists>f. att_failure a = Some f \<and> retryable f)
       \<and> (case entered cfg env s of
            None \<Rightarrow> attempts_of rep s = []
          | Some w \<Rightarrow>
              attempts_of rep s = stage_attempts cfg env s w
              \<and> (\<forall>f. stage_outcome cfg env s w = Inl f
                    \<longrightarrow> status rep = Failed \<and> failed_at rep = Some (s, f))
              \<and> (exhausted cfg env s w
                    \<longrightarrow> status rep = Failed
                      \<and> (\<exists>f. failed_at rep = Some (s, f) \<and> retryable f)
                      \<and> retries_of rep s = max_retries cfg))"
proof (cases "entered cfg env s")
  case None
  with att show ?thesis by simp
next
  case (Some w)
  with att have eq: "attempts_of rep s = stage_attempts cfg env s w" by simp
  have exh: "status rep = Failed \<and> (\<exists>f. failed_at rep = Some (s, f) \<and> retryable f)
      \<and> retries_of rep s = max_retries cfg" if e: "exhausted cfg env s w"
  proof -
    from exhausted_outcome [OF e] obtain f where
      fin: "final_attempt (max_retries cfg) (stage_action cfg env s w) = max_retries cfg"
      and f: "stage_outcome cfg env s w = Inl f" "retryable f"
      by blast
    from fin eq have "retries_of rep s = max_retries cfg"
      by (simp add: retries_of_def stage_attempts_def)
    with fail Some f show ?thesis by simp
  qed
  from fail Some have "\<forall>f. stage_outcome cfg env s w = Inl f
      \<longrightarrow> status rep = Failed \<and> failed_at rep = Some (s, f)"
    by simp
  with eq Some exh stage_attempts_facts(1-3) [of cfg env s w]
  show ?thesis by (simp only: option.case) blast
qed

lemma faults_recorded:
  assumes att: "\<And>s. attempts_of rep s
      = (case entered cfg env s of None \<Rightarrow> [] | Some w \<Rightarrow> stage_attempts cfg env s w)"
  shows "\<forall>a\<in>set (attempts rep). \<forall>f. faults env (att_stage a) (att_number a) = Some f
           \<longrightarrow> att_failure a = Some f"
proof
  fix a assume a: "a \<in> set (attempts rep)"
  then have "a \<in> set (attempts_of rep (att_stage a))"
    by (simp add: attempts_of_def)
  with att [of "att_stage a"] obtain w where "a \<in> set (stage_attempts cfg env (att_stage a) w)"
    by (cases "entered cfg env (att_stage a)") simp_all
  with stage_attempts_facts(4) [of cfg env "att_stage a" w]
  show "\<forall>f. faults env (att_stage a) (att_number a) = Some f \<longrightarrow> att_failure a = Some f"
    by blast
qed

lemma run_once_as_prescribed:
  "\<exists>rep handed. run_once cfg env = Some (rep, handed)
     \<and> (\<forall>s. attempts_of rep s
            = (case entered cfg env s of None \<Rightarrow> [] | Some w \<Rightarrow> stage_attempts cfg env s w))
     \<and> (\<forall>s w f. entered cfg env s = Some w \<and> stage_outcome cfg env s w = Inl f
            \<longrightarrow> status rep = Failed \<and> failed_at rep = Some (s, f))"
proof -
  let ?P = "processing_stages"
  let ?O = "prescribed_outcome cfg env ?P empty_work"
  let ?L = "prescribed_log cfg env ?P empty_work"
  have run: "run_stages cfg env ?P empty_work [] = Some (?O, ?L)"
    by (simp add: run_stages_result)
  have log: "stage_log ?L s
      = (case reach cfg env ?P empty_work s of None \<Rightarrow> [] | Some w \<Rightarrow> stage_attempts cfg env s w)"
    for s
    using processing_stages_facts(1) by (rule stage_log_prescribed)
  have logP: "stage_log ?L Persisting = []"
    by (simp add: log reach_outside processing_stages_facts)
  have early: "stage_log ?L s
      = (case entered cfg env s of None \<Rightarrow> [] | Some w \<Rightarrow> stage_attempts cfg env s w)"
    if "entered cfg env Persisting = None" for s
    using that logP log [of s] by (cases "s = Persisting") (simp_all add: entered_processing)
  have upstream: "?O = Inl (s, f)"
    if "entered cfg env s = Some w" "stage_outcome cfg env s w = Inl f" "s \<noteq> Persisting" for s w f
    using that by (simp add: entered_processing prescribed_failure)
  show ?thesis
  proof (cases ?O)
    case (Inl sf)
    obtain s0 f0 where sf: "sf = (s0, f0)" by (cases sf)
    let ?rep = "failed_run s0 f0 ?L empty_work"
    from Inl sf run have ro: "run_once cfg env = Some (?rep, [])"
      by (simp add: run_once_def)
    from Inl have noP: "entered cfg env Persisting = None"
      by (simp add: entered_Persisting)
    have "attempts_of ?rep s
        = (case entered cfg env s of None \<Rightarrow> [] | Some w \<Rightarrow> stage_attempts cfg env s w)" for s
      using early [OF noP, of s] by (simp add: attempts_of_stage_log failed_run_def)
    moreover have "status ?rep = Failed \<and> failed_at ?rep = Some (s, f)"
      if "entered cfg env s = Some w \<and> stage_outcome cfg env s w = Inl f" for s w f
    proof -
      from that noP have "s \<noteq> Persisting" by auto
      with that upstream Inl sf show ?thesis by (auto simp: failed_run_def)
    qed
    ultimately show ?thesis using ro by blast
  next
    case (Inr w)
    have sound: False
      if "entered cfg env s = Some ws" "stage_outcome cfg env s ws = Inl f" "s \<noteq> Persisting"
      for s ws f
      using upstream [OF that] Inr by simp
    show ?thesis
    proof (cases "w_batch w = [] \<or> (backup_enabled cfg \<and> \<not> backup_available env)")
      case True
      with Inr have noP: "entered cfg env Persisting = None"
        by (simp add: entered_Persisting)
      from True Inr run have "run_once cfg env = Some (failed_run Validating ValidationError ?L w, [])
          \<or> run_once cfg env = Some (failed_run Persisting BackupUnavailable ?L w, [])"
        by (auto simp: run_once_def)
      then obtain s0 f0 where ro: "run_once cfg env = Some (failed_run s0 f0 ?L w, [])"
        by blast
      let ?rep = "failed_run s0 f0 ?L w"
      have "attempts_of ?rep s
          = (case entered cfg env s of None \<Rightarrow> [] | Some w \<Rightarrow> stage_attempts cfg env s w)" for s
        using early [OF noP, of s] by (simp add: attempts_of_stage_log failed_run_def)
      moreover have "status ?rep = Failed \<and> failed_at ?rep = Some (s, f)"
        if "entered cfg env s = Some ws \<and> stage_outcome cfg env s ws = Inl f" for s ws f
      proof -
        from that noP have "s \<noteq> Persisting" by auto
        with that sound show ?thesis by blast
      qed
      ultimately show ?thesis using ro by blast
    next
      case False
      with Inr have isP: "entered cfg env Persisting = Some w"
        by (simp add: entered_Persisting)
      let ?L2 = "?L @ stage_attempts cfg env Persisting w"
      have ret: "retry_loop (max_retries cfg) Persisting (stage_action cfg env Persisting w) 0 ?L
          = Some (stage_outcome cfg env Persisting w, ?L2)"
        by (rule stage_result)
      have log2: "stage_log ?L2 s
          = (case entered cfg env s of None \<Rightarrow> [] | Some w \<Rightarrow> stage_attempts cfg env s w)" for s
      proof (cases "s = Persisting")
        case True
        with isP logP show ?thesis
          by (simp add: stage_log_append stage_log_stage_attempts)
      next
        case False
        with log [of s] show ?thesis
          by (simp add: stage_log_append stage_log_stage_attempts entered_processing)
      qed
      show ?thesis
      proof (cases "stage_outcome cfg env Persisting w")
        case (Inl f0)
        let ?rep = "failed_run Persisting f0 ?L2 w"
        from False Inr run ret Inl have ro: "run_once cfg env = Some (?rep, w_batch w)"
          by (auto simp: run_once_def)
        have "attempts_of ?rep s
            = (case entered cfg env s of None \<Rightarrow> [] | Some w \<Rightarrow> stage_attempts cfg env s w)" for s
          using log2 [of s] by (simp add: attempts_of_stage_log failed_run_def)
        moreover have "status ?rep = Failed \<and> failed_at ?rep = Some (s, f)"
          if "entered cfg env s = Some ws \<and> stage_outcome cfg env s ws = Inl f" for s ws f
        proof (cases "s = Persisting")
          case True
          with that isP Inl show ?thesis by (simp add: failed_run_def)
        next
          case False
          with that sound show ?thesis by blast
        qed
        ultimately show ?thesis using ro by blast
      next
        case (Inr w2)
        let ?rep = "\<lparr>status = (if w_exclusions w = [] then Succeeded else PartiallySucceeded),
                    failed_at = None, attempts = ?L2,
                    validation_report = w_validation w, excluded = w_exclusions w\<rparr>"
        from False \<open>?O = Inr w\<close> run ret Inr have ro: "run_once cfg env = Some (?rep, w_batch w)"
          by (auto simp: run_once_def)
        have "attempts_of ?rep s
            = (case entered cfg env s of None \<Rightarrow> [] | Some w \<Rightarrow> stage_attempts cfg env s w)" for s
          using log2 [of s] by (simp add: attempts_of_stage_log)
        moreover have "status ?rep = Failed \<and> failed_at ?rep = Some (s, f)"
          if "entered cfg env s = Some ws \<and> stage_outcome cfg env s ws = Inl f" for s ws f
        proof (cases "s = Persisting")
          case True
          with that isP Inr show ?thesis by simp
        next
          case False
          with that sound show ?thesis by blast
        qed
        ultimately show ?thesis using ro by blast
      qed
    qed
  qed
qed

text \<open>
  Claim C2. Every run returns a report: the orchestrator never loops forever. In the
  report, for every stage:
  \<^item> there are at most \<open>maxRetries + 1\<close> attempts, that is, the stage is re-attempted at
    most \<open>maxRetries\<close> times; they are numbered from 0 without gaps, and each but the
    last failed with a retryable failure;
  \<^item> a stage the run does not enter has no attempt; a stage the run enters has exactly
    the attempts the policy prescribes, one entry for each attempt made, with what
    the attempt met;
  \<^item> a stage whose final attempt fails ends the run with status Failed at that stage;
  \<^item> in particular a stage that keeps failing with a retryable failure, its own or a
    fault of the environment, through all of its first \<open>maxRetries + 1\<close> attempts ends
    the run with status Failed at that stage, with \<open>maxRetries\<close> retries recorded.

  Every fault of the environment is recorded with the attempt that met it.
\<close>

theorem run_once_retry_bound:
  "\<exists>rep handed. run_once cfg env = Some (rep, handed)
     \<and> (\<forall>s. length (attempts_of rep s) \<le> max_retries cfg + 1
          \<and> map att_number (attempts_of rep s) = [0..<length (attempts_of rep s)]
          \<and> (\<forall>a\<in>set (butlast (attempts_of rep s)). \<exists>f. att_failure a = Some f \<and> retryable f)
          \<and> (case entered cfg env s of
               None \<Rightarrow> attempts_of rep s = []
             | Some w \<Rightarrow>
                 attempts_of rep s = stage_attempts cfg env s w
                 \<and> (\<forall>f. stage_outcome cfg env s w = Inl f
                       \<longrightarrow> status rep = Failed \<and> failed_at rep = Some (s, f))
                 \<and> (exhausted cfg env s w
                       \<longrightarrow> status rep = Failed
                         \<and> (\<exists>f. failed_at rep = Some (s, f) \<and> retryable f)
                         \<and> retries_of rep s = max_retries cfg)))
     \<and> (\<forall>a\<in>set (attempts rep). \<forall>f. faults env (att_stage a) (att_number a) = Some f
           \<longrightarrow> att_failure a = Some f)"
proof -
  from run_once_as_prescribed [of cfg env] obtain rep handed where
    run: "run_once cfg env = Some (rep, handed)"
    and att: "\<And>s. attempts_of rep s
        = (case entered cfg env s of None \<Rightarrow> [] | Some w \<Rightarrow> stage_attempts cfg env s w)"
    and fail: "\<forall>s w f. entered cfg env s = Some w \<and> stage_outcome cfg env s w = Inl f
        \<longrightarrow> status rep = Failed \<and> failed_at rep = Some (s, f)"
    by blast
  from att have rec: "\<forall>a\<in>set (attempts rep). \<forall>f. faults env (att_stage a) (att_number a) = Some f
           \<longrightarrow> att_failure a = Some f"
    by (rule faults_recorded)
  have "length (attempts_of rep s) \<le> max_retries cfg + 1
          \<and> map att_number (attempts_of rep s) = [0..<length (attempts_of rep s)]
          \<and> (\<forall>a\<in>set (butlast (attempts_of rep s)). \<exists>f. att_failure a = Some f \<and> retryable f)
          \<and> (case entered cfg env s of
               None \<Rightarrow> attempts_of rep s = []
             | Some w \<Rightarrow>
                 attempts_of rep s = stage_attempts cfg env s w
                 \<and> (\<forall>f. stage_outcome cfg env s w = Inl f
                       \<longrightarrow> status rep = Failed \<and> failed_at rep = Some (s, f))
                 \<and> (exhausted cfg env s w
                       \<longrightarrow> status rep = Failed
                         \<and> (\<exists>f. failed_at rep = Some (s, f) \<and> retryable f)
                         \<and> retries_of rep s = max_retries cfg))" for s
  proof (rule retry_policy_of_stage)
    show "attempts_of rep s
        = (case entered cfg env s of None \<Rightarrow> [] | Some w \<Rightarrow> stage_attempts cfg env s w)"
      by (rule att)
    from fail show "\<forall>w f. entered cfg env s = Some w \<and> stage_outcome cfg env s w = Inl f
        \<longrightarrow> status rep = Failed \<and> failed_at rep = Some (s, f)"
      by blast
  qed
  with rec run show ?thesis
    by blast
qed


text \<open>
  Scenario D: four timeouts of the Ingestor with \<open>maxRetries = 3\<close>; and a source that
  cannot be opened, where the Ingestor's own failure is the retryable one. In both
  the Ingesting stage is entered and exhausted, the run fails at Ingesting, three
  retries are recorded, and the report holds four attempts in all.
\<close>

theorem run_once_retry_bound_witness:
  "(\<exists>rep handed. run_once scenario_D_config scenario_D_environment = Some (rep, handed)
      \<and> entered scenario_D_config scenario_D_environment Ingesting = Some empty_work
      \<and> exhausted scenario_D_config scenario_D_environment Ingesting empty_work
      \<and> status rep = Failed
      \<and> failed_at rep = Some (Ingesting, Timeout)
      \<and> retries_of rep Ingesting = 3
      \<and> length (attempts rep) = 4)
   \<and> (\<exists>rep handed. run_once scenario_D_config unavailable_source_environment = Some (rep, handed)
      \<and> entered scenario_D_config unavailable_source_environment Ingesting = Some empty_work
      \<and> exhausted scenario_D_config unavailable_source_environment Ingesting empty_work
      \<and> status rep = Failed
      \<and> failed_at rep = Some (Ingesting, SourceUnavailable)
      \<and> retries_of rep Ingesting = 3
      \<and> length (attempts rep) = 4)"
proof -
  have scenario: "\<exists>rep handed. run_once scenario_D_config env = Some (rep, handed)
      \<and> entered scenario_D_config env Ingesting = Some empty_work
      \<and> exhausted scenario_D_config env Ingesting empty_work
      \<and> status rep = Failed \<and> failed_at rep = Some (Ingesting, f)
      \<and> retries_of rep Ingesting = 3 \<and> length (attempts rep) = 4"
    if act: "\<And>n. n \<le> 3 \<Longrightarrow> stage_action scenario_D_config env Ingesting empty_work n = Inl f"
      and f: "retryable f" for env f
  proof -
    have ent: "entered scenario_D_config env Ingesting = Some empty_work"
      by (simp add: entered_def processing_stages_def)
    have exh: "exhausted scenario_D_config env Ingesting empty_work"
      using act f by (simp add: exhausted_iff retryable_failure_def scenario_D_config_def)
    from exhausted_outcome(1) [OF exh]
    have out: "stage_outcome scenario_D_config env Ingesting empty_work = Inl f"
      using act [of 3] by (simp add: stage_outcome_def scenario_D_config_def)
    from run_once_retry_bound [of scenario_D_config env] obtain rep handed where
      run: "run_once scenario_D_config env = Some (rep, handed)"
      and st: "case entered scenario_D_config env Ingesting of
                 None \<Rightarrow> attempts_of rep Ingesting = []
               | Some w \<Rightarrow>
                   attempts_of rep Ingesting = stage_attempts scenario_D_config env Ingesting w
                   \<and> (\<forall>f. stage_outcome scenario_D_config env Ingesting w = Inl f
                         \<longrightarrow> status rep = Failed \<and> failed_at rep = Some (Ingesting, f))
                   \<and> (exhausted scenario_D_config env Ingesting w
                         \<longrightarrow> status rep = Failed
                           \<and> (\<exists>f. failed_at rep = Some (Ingesting, f) \<and> retryable f)
                           \<and> retries_of rep Ingesting = max_retries scenario_D_config)"
      by blast
    from st ent exh out have res: "status rep = Failed" "failed_at rep = Some (Ingesting, f)"
      "retries_of rep Ingesting = 3"
      by (simp_all add: scenario_D_config_def)
    have "run_stages scenario_D_config env processing_stages empty_work []
        = Some (Inl (Ingesting, f), stage_attempts scenario_D_config env Ingesting empty_work)"
      using out by (simp add: run_stages_result processing_stages_def)
    with run have "attempts rep = stage_attempts scenario_D_config env Ingesting empty_work"
      by (auto simp: run_once_def failed_run_def)
    moreover from exhausted_outcome(1) [OF exh]
    have "length (stage_attempts scenario_D_config env Ingesting empty_work) = 4"
      by (simp add: stage_attempts_def scenario_D_config_def)
    ultimately have "length (attempts rep) = 4" by simp
    with run ent exh res show ?thesis by blast
  qed
  have d: "stage_action scenario_D_config scenario_D_environment Ingesting empty_work n = Inl Timeout"
    if "n \<le> 3" for n
    using that by (simp add: stage_action_def scenario_D_environment_def)
  have u: "stage_action scenario_D_config unavailable_source_environment Ingesting empty_work n
      = Inl SourceUnavailable" for n
    by (simp add: stage_action_def unavailable_source_environment_def)
  from scenario [of scenario_D_environment Timeout, OF d]
    scenario [of unavailable_source_environment SourceUnavailable, OF u]
  show ?thesis by simp
qed

section \<open>Properties of the Validator\<close>

lemma fires_error_invalid:
  "ru \<in> set rs \<Longrightarrow> severity ru = Error \<Longrightarrow> fires ru r \<Longrightarrow> \<not> record_valid rs r"
  by (auto simp: record_valid_def violations_def list_all_iff)

lemma warnings_only_valid:
  "\<forall>ru\<in>set rs. fires ru r \<longrightarrow> severity ru = Warning \<Longrightarrow> record_valid rs r"
  by (auto simp: record_valid_def violations_def list_all_iff)

lemma invalid_listed:
  assumes "r \<in> set b" and "ru \<in> set rs" and "severity ru = Error" and "fires ru r"
  shows "\<exists>names. (record_identifier r, ValidationError, names) \<in> set (excluded_by_validation b rs)
           \<and> rule_name ru \<in> set names"
proof -
  let ?names = "map rule_name (filter (\<lambda>ru. severity ru = Error) (violations rs r))"
  from assms(2-4) have "\<not> record_valid rs r" by (rule fires_error_invalid)
  with assms(1) have "(record_identifier r, ValidationError, ?names) \<in> set (excluded_by_validation b rs)"
    by (auto simp: excluded_by_validation_def)
  moreover from assms(2-4) have "rule_name ru \<in> set ?names"
    by (auto simp: violations_def)
  ultimately show ?thesis by blast
qed

lemma validating_result:
  "retry_loop mr Validating (stage_action cfg env Validating w) 0 alog = Some (Inr w', alog')
   \<Longrightarrow> w' = validating cfg w"
proof -
  assume ret: "retry_loop mr Validating (stage_action cfg env Validating w) 0 alog = Some (Inr w', alog')"
  from retry_loop_from_0 [of mr Validating "stage_action cfg env Validating w" alog] obtain k where
    "retry_loop mr Validating (stage_action cfg env Validating w) 0 alog
       = Some (stage_action cfg env Validating w k,
               alog @ map (logged Validating (stage_action cfg env Validating w)) [0..<Suc k])"
    by blast
  with ret have "stage_action cfg env Validating w k = Inr w'" by simp
  then show ?thesis
    by (simp add: stage_action_def split: option.splits)
qed

lemma run_stages_validated:
  "run_stages cfg env (ss @ [Validating]) w alog = Some (Inr w', alog')
   \<Longrightarrow> \<forall>r\<in>set (w_batch w'). record_valid (rules cfg) r"
proof (induction ss arbitrary: w alog)
  case Nil
  then obtain alog1 where
    "retry_loop (max_retries cfg) Validating (stage_action cfg env Validating w) 0 alog
       = Some (Inr w', alog1)"
    by (auto split: option.splits sum.splits)
  then have "w' = validating cfg w" by (rule validating_result)
  then show ?case by (simp add: validating_def valid_records_def)
next
  case (Cons s ss)
  then obtain w1 alog1 where
    "run_stages cfg env (ss @ [Validating]) w1 alog1 = Some (Inr w', alog')"
    by (auto split: option.splits sum.splits)
  then show ?case by (rule Cons.IH)
qed

lemma handed_records_valid:
  assumes "run_once cfg env = Some (rep, handed)"
  shows "\<forall>r\<in>set handed. record_valid (rules cfg) r"
proof (cases "handed = []")
  case True
  then show ?thesis by simp
next
  case False
  with assms obtain w alog where
    run: "run_stages cfg env processing_stages empty_work [] = Some (Inr w, alog)"
    and h: "handed = w_batch w"
    by (auto simp: run_once_def split: option.splits sum.splits if_splits)
  have "processing_stages = [Ingesting, Cleaning, Enriching, Modeling] @ [Validating]"
    by (simp add: processing_stages_def)
  with run have "run_stages cfg env ([Ingesting, Cleaning, Enriching, Modeling] @ [Validating])
      empty_work [] = Some (Inr w, alog)"
    by (simp only:)
  then have "\<forall>r\<in>set (w_batch w). record_valid (rules cfg) r"
    by (rule run_stages_validated)
  with h show ?thesis by simp
qed

text \<open>
  Claim C3. Let \<open>r\<close> be a record of the batch that enters validation. If a rule of
  error severity fires on \<open>r\<close> (the rule applies to the record's observation date, by
  its effective-date range or for want of one, and the record violates it), then \<open>r\<close>
  is marked invalid, it is absent from the batch that leaves validation, it is listed
  among the exclusions as a ValidationError, and it is among the records handed to the
  Persister in no run under these rules. If every rule that fires on \<open>r\<close> has warning
  severity, \<open>r\<close> is valid and stays in the batch.
\<close>

theorem error_rule_excludes_record:
  assumes "r \<in> set (w_batch w)"
  shows "((\<exists>ru\<in>set (rules cfg). severity ru = Error \<and> fires ru r) \<longrightarrow>
            \<not> record_valid (rules cfg) r
            \<and> r \<notin> set (w_batch (validating cfg w))
            \<and> (\<exists>names. (record_identifier r, ValidationError, names)
                           \<in> set (w_exclusions (validating cfg w)))
            \<and> (\<forall>env rep handed. run_once cfg env = Some (rep, handed) \<longrightarrow> r \<notin> set handed))
       \<and> ((\<forall>ru\<in>set (rules cfg). fires ru r \<longrightarrow> severity ru = Warning) \<longrightarrow>
            record_valid (rules cfg) r \<and> r \<in> set (w_batch (validating cfg w)))"
proof (intro conjI impI)
  assume "\<exists>ru\<in>set (rules cfg). severity ru = Error \<and> fires ru r"
  then obtain ru where ru: "ru \<in> set (rules cfg)" "severity ru = Error" "fires ru r"
    by blast
  then show inv: "\<not> record_valid (rules cfg) r"
    by (rule fires_error_invalid)
  then show "r \<notin> set (w_batch (validating cfg w))"
    by (simp add: validating_def valid_records_def)
  from invalid_listed [OF assms ru]
  show "\<exists>names. (record_identifier r, ValidationError, names) \<in> set (w_exclusions (validating cfg w))"
    by (auto simp: validating_def)
  show "\<forall>env rep handed. run_once cfg env = Some (rep, handed) \<longrightarrow> r \<notin> set handed"
    using inv handed_records_valid by blast
next
  assume "\<forall>ru\<in>set (rules cfg). fires ru r \<longrightarrow> severity ru = Warning"
  then show v: "record_valid (rules cfg) r"
    by (rule warnings_only_valid)
  with assms show "r \<in> set (w_batch (validating cfg w))"
    by (simp add: validating_def valid_records_def)
qed

text \<open>
  Three records under an error rule in effect from day 100 to day 200 and a warning
  rule: record 1 violates the error rule within its range and is excluded; record 2
  only draws the warning and record 3 lies outside the error rule's range, and both
  are handed to the Persister, in a run that ends as PartiallySucceeded.
\<close>

theorem error_rule_excludes_record_witness:
  "record_1 \<in> set (w_batch scenario_B_work)
   \<and> name_required \<in> set (rules scenario_B_config)
   \<and> severity name_required = Error \<and> fires name_required record_1
   \<and> record_1 \<notin> set (w_batch (validating scenario_B_config scenario_B_work))
   \<and> fires score_in_range record_2 \<and> severity score_in_range = Warning
   \<and> \<not> fires name_required record_2
   \<and> record_2 \<in> set (w_batch (validating scenario_B_config scenario_B_work))
   \<and> violated (kind name_required) record_3 \<and> \<not> fires name_required record_3
   \<and> record_3 \<in> set (w_batch (validating scenario_B_config scenario_B_work))
   \<and> (\<exists>rep. run_once scenario_B_config scenario_B_environment = Some (rep, [record_2, record_3])
          \<and> status rep = PartiallySucceeded
          \<and> record_1 \<notin> set [record_2, record_3])"
proof -
  have in1: "record_1 \<in> set (w_batch scenario_B_work)"
    and in2: "record_2 \<in> set (w_batch scenario_B_work)"
    and in3: "record_3 \<in> set (w_batch scenario_B_work)"
    by (simp_all add: scenario_B_work_def)
  have f1: "fires name_required record_1"
    by (simp add: fires_def applies_def name_required_def record_1_def field_def)
  then have err1: "\<exists>ru\<in>set (rules scenario_B_config). severity ru = Error \<and> fires ru record_1"
    by (simp add: scenario_B_config_def name_required_def)
  have n2: "\<not> fires name_required record_2" and s2: "fires score_in_range record_2"
    by (simp_all add: fires_def applies_def name_required_def score_in_range_def record_2_def field_def)
  then have warn2: "\<forall>ru\<in>set (rules scenario_B_config). fires ru record_2 \<longrightarrow> severity ru = Warning"
    by (simp add: scenario_B_config_def score_in_range_def)
  have v3: "violated (kind name_required) record_3" and n3: "\<not> fires name_required record_3"
    and s3: "\<not> fires score_in_range record_3"
    by (simp_all add: fires_def applies_def name_required_def score_in_range_def record_3_def field_def)
  then have warn3: "\<forall>ru\<in>set (rules scenario_B_config). fires ru record_3 \<longrightarrow> severity ru = Warning"
    by (simp add: scenario_B_config_def)
  note t1 = error_rule_excludes_record [OF in1, of scenario_B_config]
  note t2 = error_rule_excludes_record [OF in2, of scenario_B_config]
  note t3 = error_rule_excludes_record [OF in3, of scenario_B_config]
  from t1 err1 have out1: "record_1 \<notin> set (w_batch (validating scenario_B_config scenario_B_work))"
    and never1: "\<forall>rep handed. run_once scenario_B_config scenario_B_environment = Some (rep, handed)
          \<longrightarrow> record_1 \<notin> set handed"
    by blast+
  from t2 warn2 have keep2: "record_2 \<in> set (w_batch (validating scenario_B_config scenario_B_work))"
    by blast
  from t3 warn3 have keep3: "record_3 \<in> set (w_batch (validating scenario_B_config scenario_B_work))"
    by blast
  have v1: "\<not> record_valid [name_required, score_in_range] record_1"
    using f1 by (simp add: record_valid_def violations_def name_required_def)
  have v2: "record_valid [name_required, score_in_range] record_2"
    using n2 by (simp add: record_valid_def violations_def score_in_range_def)
  have v3': "record_valid [name_required, score_in_range] record_3"
    using n3 s3 by (simp add: record_valid_def violations_def)
  have "\<exists>rep. run_once scenario_B_config scenario_B_environment = Some (rep, [record_2, record_3])
          \<and> status rep = PartiallySucceeded"
    using v1 v2 v3'
    by (simp add: run_once_def processing_stages_def retry_loop.simps stage_action_def
          scenario_B_config_def scenario_B_environment_def scenario_B_work_def empty_work_def
          validating_def valid_records_def excluded_by_validation_def)
  with never1 have run: "\<exists>rep. run_once scenario_B_config scenario_B_environment
            = Some (rep, [record_2, record_3])
          \<and> status rep = PartiallySucceeded \<and> record_1 \<notin> set [record_2, record_3]"
    by blast
  have mem: "name_required \<in> set (rules scenario_B_config)"
    and sev: "severity name_required = Error" "severity score_in_range = Warning"
    by (simp_all add: scenario_B_config_def name_required_def score_in_range_def)
  from in1 mem sev f1 out1 s2 n2 keep2 v3 n3 keep3 run show ?thesis
    by blast
qed

end
